theory Spec2Isabelle
  imports Main
begin

section \<open>The flat list model\<close>

text \<open>
  The converters of \<^verbatim>\<open>list/list/converters\<close> read model nodes through
  \<^verbatim>\<open>getAttribute\<close>, \<^verbatim>\<open>hasAttribute\<close> and \<^verbatim>\<open>getAttributeKeys\<close>.
  A node is an element or a text node, with a name and an attribute map kept in insertion
  order. The children of the model root are a list of nodes; a node's identity is its
  offset in that list, and a model position is the offset before which it stands.
\<close>

datatype attr_value = VStr string | VNum nat | VBool bool

datatype node_kind = ElementNode | TextNode

record node =
  kind :: node_kind
  name :: string
  attrs :: "(string \<times> attr_value) list"

type_synonym document = "node list"

definition getAttribute :: "node \<Rightarrow> string \<Rightarrow> attr_value option" where
  "getAttribute n k = map_of (attrs n) k"

definition hasAttribute :: "node \<Rightarrow> string \<Rightarrow> bool" where
  "hasAttribute n k = (getAttribute n k \<noteq> None)"

definition getAttributeKeys :: "node \<Rightarrow> string list" where
  "getAttributeKeys n = map fst (attrs n)"

text \<open>JavaScript's \<^verbatim>\<open>String.prototype.startsWith\<close>.\<close>

definition startsWith :: "string \<Rightarrow> string \<Rightarrow> bool" where
  "startsWith s p = (take (length p) s = p)"

text \<open>
  Modelled from the spec: \<^verbatim>\<open>isListItemBlock\<close> of \<^verbatim>\<open>utils/model\<close> is not among
  the sources. The spec's list boundary is "a block with no \<^verbatim>\<open>listItemId\<close>", so a list-item
  block is an element that carries \<^verbatim>\<open>listItemId\<close>.
\<close>

definition isListItemBlock :: "node \<Rightarrow> bool" where
  "isListItemBlock n = (kind n = ElementNode \<and> hasAttribute n ''listItemId'')"

text \<open>
  The type \<^verbatim>\<open>ListElement\<close> declares \<^verbatim>\<open>listIndent\<close> a number (the spec: a non-negative
  integer); the getter reads it, and reads 0 from a node outside that type.
\<close>

definition listIndentOf :: "node \<Rightarrow> nat" where
  "listIndentOf n = (case getAttribute n ''listIndent'' of Some (VNum k) \<Rightarrow> k | _ \<Rightarrow> 0)"

subsection \<open>The list walker\<close>

datatype direction = Forward | Backward

text \<open>
  Modelled from the spec: \<^verbatim>\<open>iterateSiblingListBlocks\<close> of \<^verbatim>\<open>utils/listwalker\<close> is not
  among the sources. It yields the sibling blocks from the start node on, in the given
  direction, and stops at the first node that is not a list-item block (or at the end of the
  parent). Each block comes with its offset.
\<close>

definition iterateSiblingListBlocks :: "document \<Rightarrow> nat \<Rightarrow> direction \<Rightarrow> (nat \<times> node) list" where
  "iterateSiblingListBlocks doc i d =
     (case d of
        Forward \<Rightarrow> takeWhile (\<lambda>p. isListItemBlock (snd p)) (drop i (enumerate 0 doc))
      | Backward \<Rightarrow>
          (if i < length doc
           then takeWhile (\<lambda>p. isListItemBlock (snd p)) (rev (take (Suc i) (enumerate 0 doc)))
           else []))"

text \<open>
  Modelled from the spec: the walker with the filters \<^verbatim>\<open>sameIndent\<close> and
  \<^verbatim>\<open>sameItemId\<close>. Blocks of a higher indent (nested lists) are passed over, a block of a lower
  indent ends the walk, and so does a block of the same indent that belongs to another item.
\<close>

fun sameItemWalk :: "node \<Rightarrow> (nat \<times> node) list \<Rightarrow> nat list" where
  "sameItemWalk start [] = []"
| "sameItemWalk start ((j, n) # rest) =
     (if listIndentOf n < listIndentOf start then []
      else if listIndentOf n > listIndentOf start then sameItemWalk start rest
      else if getAttribute n ''listItemId'' \<noteq> getAttribute start ''listItemId'' then []
      else j # sameItemWalk start rest)"

text \<open>
  Modelled from the spec: \<^verbatim>\<open>getListItemBlocks\<close>, the blocks of the item of block \<open>i\<close> in one
  direction, in document order. Forward the walk includes the block itself, backward it starts
  at the block before it.
\<close>

definition getListItemBlocks :: "document \<Rightarrow> nat \<Rightarrow> direction \<Rightarrow> nat list" where
  "getListItemBlocks doc i d =
     (if i < length doc
      then (case d of
              Forward \<Rightarrow> sameItemWalk (doc ! i) (iterateSiblingListBlocks doc i Forward)
            | Backward \<Rightarrow>
                (case i of
                   0 \<Rightarrow> []
                 | Suc j \<Rightarrow> rev (sameItemWalk (doc ! i) (iterateSiblingListBlocks doc j Backward))))
      else [])"

text \<open>Modelled from the spec: \<^verbatim>\<open>getAllListItemBlocks\<close>, every block of the item.\<close>

definition getAllListItemBlocks :: "document \<Rightarrow> nat \<Rightarrow> nat list" where
  "getAllListItemBlocks doc i = getListItemBlocks doc i Backward @ getListItemBlocks doc i Forward"

section \<open>View elements\<close>

datatype view_kind =
  PlainElement | ContainerElement | AttributeElement | EditableElement | UIElement

text \<open>
  A view element: its kind, name, attributes and custom properties. An attribute element
  made by \<^verbatim>\<open>createListItemElement\<close> or \<^verbatim>\<open>createListElement\<close> also keeps what it was made
  from: the indent level (\<open>vlevel\<close>) and the item id or list type (\<open>vid\<close>).
\<close>

record view_element =
  vkind :: view_kind
  vname :: string
  vattrs :: "(string \<times> string) list"
  customProperties :: "(string \<times> bool) list"
  vlevel :: "nat option"
  vid :: "attr_value option"

definition createContainerElement :: "string \<Rightarrow> (string \<times> string) list \<Rightarrow> view_element" where
  "createContainerElement nm as =
     \<lparr>vkind = ContainerElement, vname = nm, vattrs = as, customProperties = [],
      vlevel = None, vid = None\<rparr>"

definition setCustomProperty :: "string \<Rightarrow> bool \<Rightarrow> view_element \<Rightarrow> view_element" where
  "setCustomProperty k v e =
     e\<lparr>customProperties := (k, v) # filter (\<lambda>p. fst p \<noteq> k) (customProperties e)\<rparr>"

definition getCustomProperty :: "view_element \<Rightarrow> string \<Rightarrow> bool option" where
  "getCustomProperty e k = map_of (customProperties e) k"

section \<open>The bogus paragraph\<close>

text \<open>
  The loop of \<^verbatim>\<open>shouldUseBogusParagraph\<close> over the attribute keys: a key with the prefix
  \<^verbatim>\<open>selection:\<close> is passed over, any other key outside \<open>attributeNames\<close> returns false.
\<close>

fun bogusAttributeKeys :: "string list \<Rightarrow> string list \<Rightarrow> bool" where
  "bogusAttributeKeys [] attributeNames = True"
| "bogusAttributeKeys (attributeKey # keys) attributeNames =
     (if startsWith attributeKey ''selection:'' then bogusAttributeKeys keys attributeNames
      else if attributeKey \<notin> set attributeNames then False
      else bogusAttributeKeys keys attributeNames)"

definition shouldUseBogusParagraph :: "node \<Rightarrow> string list \<Rightarrow> nat list \<Rightarrow> bool" where
  "shouldUseBogusParagraph item attributeNames blocks =
     (if \<not> isListItemBlock item then False
      else if \<not> bogusAttributeKeys (getAttributeKeys item) attributeNames then False
      else length blocks < 2)"

text \<open>
  \<^verbatim>\<open>bogusParagraphCreator\<close>: the creator calls \<^verbatim>\<open>shouldUseBogusParagraph\<close> with the default
  \<open>blocks\<close>, all blocks of the element's item. \<open>None\<close> is the source's \<^verbatim>\<open>null\<close>.
\<close>

definition bogusParagraphCreator ::
  "string list \<Rightarrow> bool \<Rightarrow> document \<Rightarrow> nat \<Rightarrow> view_element option" where
  "bogusParagraphCreator attributeNames dataPipeline doc i =
     (if \<not> shouldUseBogusParagraph (doc ! i) attributeNames (getAllListItemBlocks doc i) then None
      else if \<not> dataPipeline
      then Some (createContainerElement ''span'' [(''class'', ''ck-list-bogus-paragraph'')])
      else Some (setCustomProperty ''dataPipeline:transparentRendering'' True
                   (createContainerElement ''p'' [])))"

section \<open>Upcast converters\<close>

text \<open>
  The view that the upcast converters read: text nodes and elements with their children.
\<close>

datatype view_node = ViewText string | ViewElement view_element "view_node list"

definition viewElementNamed :: "string \<Rightarrow> view_node list \<Rightarrow> view_node" where
  "viewElementNamed nm children =
     ViewElement \<lparr>vkind = PlainElement, vname = nm, vattrs = [], customProperties = [],
                  vlevel = None, vid = None\<rparr> children"

text \<open>
  Modelled from the spec: \<^verbatim>\<open>isListItemView\<close> and \<^verbatim>\<open>isListView\<close> of \<^verbatim>\<open>utils/view\<close> are
  not among the sources. A list-item view is an element named \<^verbatim>\<open>li\<close>, a list view an element
  named \<^verbatim>\<open>ul\<close> or \<^verbatim>\<open>ol\<close> (the names \<^verbatim>\<open>unwrapListItemBlock\<close> unwraps).
\<close>

definition isListItemView :: "view_element \<Rightarrow> bool" where
  "isListItemView e = (vname e = ''li'')"

definition isListView :: "view_element \<Rightarrow> bool" where
  "isListView e = (vname e = ''ol'' \<or> vname e = ''ul'')"

definition viewNodeIs :: "(view_element \<Rightarrow> bool) \<Rightarrow> view_node \<Rightarrow> bool" where
  "viewNodeIs p v = (case v of ViewText t \<Rightarrow> False | ViewElement e children \<Rightarrow> p e)"

text \<open>
  \<^verbatim>\<open>listUpcastCleanList\<close>. \<open>testName\<close> is what \<^verbatim>\<open>consumable.test( viewItem, { name: true } )\<close>
  returns: \<open>Some True\<close>, \<open>Some False\<close>, or \<open>None\<close> for \<^verbatim>\<open>null\<close>; the converter returns
  at once unless it is true. The result is the view item after the removals.
\<close>

definition listUpcastCleanList :: "bool option \<Rightarrow> view_node \<Rightarrow> view_node" where
  "listUpcastCleanList testName viewItem =
     (if testName \<noteq> Some True then viewItem
      else (case viewItem of
              ViewText t \<Rightarrow> viewItem
            | ViewElement e children \<Rightarrow>
                ViewElement e
                  (filter (\<lambda>child. \<not> (\<not> viewNodeIs isListItemView child \<and>
                                      \<not> viewNodeIs isListView child)) children)))"

text \<open>
  What \<^verbatim>\<open>listItemUpcastConverter\<close> reads of \<^verbatim>\<open>data.viewItem\<close>: the names of its element
  ancestors, the parent first (a view item with no parent, or under a document fragment, has
  none).
\<close>

record view_item =
  viewAncestors :: "string list"

definition parentIs :: "view_item \<Rightarrow> string \<Rightarrow> bool" where
  "parentIs viewItem nm = (case viewAncestors viewItem of [] \<Rightarrow> False | p # ps \<Rightarrow> p = nm)"

text \<open>
  Modelled from the spec: \<^verbatim>\<open>getIndent\<close> of \<^verbatim>\<open>utils/view\<close> is not among the sources. The
  indent is "the nesting depth of the source markup": the number of list items around the view
  item.
\<close>

definition getIndent :: "view_item \<Rightarrow> nat" where
  "getIndent viewItem = length (filter (\<lambda>a. a = ''li'') (viewAncestors viewItem))"

text \<open>JavaScript's truthiness of an attribute value (\<open>None\<close> is \<^verbatim>\<open>undefined\<close>).\<close>

definition isTruthy :: "attr_value option \<Rightarrow> bool" where
  "isTruthy v =
     (case v of None \<Rightarrow> False | Some (VStr s) \<Rightarrow> s \<noteq> [] | Some (VNum k) \<Rightarrow> k \<noteq> 0
      | Some (VBool b) \<Rightarrow> b)"

text \<open>
  \<^verbatim>\<open>writer.setAttributes\<close>: each key is set in turn; a key already in the map keeps its place.
\<close>

fun setAttribute :: "string \<Rightarrow> attr_value \<Rightarrow> (string \<times> attr_value) list \<Rightarrow> (string \<times> attr_value) list" where
  "setAttribute k v [] = [(k, v)]"
| "setAttribute k v (p # ps) = (if fst p = k then (k, v) # ps else p # setAttribute k v ps)"

definition setAttributes :: "(string \<times> attr_value) list \<Rightarrow> node \<Rightarrow> node" where
  "setAttributes attributes n =
     n\<lparr>attrs := foldl (\<lambda>m p. setAttribute (fst p) (snd p) m) (attrs n) attributes\<rparr>"

text \<open>
  The state the upcast converter works on: the counter behind \<^verbatim>\<open>ListItemUid.next()\<close>, the
  model nodes converted so far, and the elements handed to
  \<^verbatim>\<open>conversionApi.keepEmptyElement\<close>.

  Modelled from the spec: \<^verbatim>\<open>ListItemUid\<close> of \<^verbatim>\<open>utils/model\<close> is not among the sources.
  It hands out "a fresh, globally-unique item identity": the \<open>uid\<close> of a counter that every
  call advances.
\<close>

record upcast_state =
  uidCounter :: nat
  modelNodes :: document
  keptEmptyElements :: "nat list"

text \<open>The loop over \<open>items\<close> that sets the attributes on the items with no \<^verbatim>\<open>listItemId\<close>.\<close>

fun setListAttributes :: "(string \<times> attr_value) list \<Rightarrow> nat list \<Rightarrow> document \<Rightarrow> document" where
  "setListAttributes attributes [] m = m"
| "setListAttributes attributes (item # items) m =
     setListAttributes attributes items
       (if \<not> hasAttribute (m ! item) ''listItemId''
        then m[item := setAttributes attributes (m ! item)] else m)"

text \<open>
  The items of the converter: the nodes of \<^verbatim>\<open>data.modelRange\<close> (the offsets from \<open>s\<close> up to
  \<open>e\<close>, not descending into them) that the schema allows \<^verbatim>\<open>listItemId\<close> on.
\<close>

definition upcastItems :: "(node \<Rightarrow> string \<Rightarrow> bool) \<Rightarrow> document \<Rightarrow> nat \<times> nat \<Rightarrow> nat list" where
  "upcastItems checkAttribute m r =
     filter (\<lambda>i. checkAttribute (m ! i) ''listItemId'') [fst r ..< snd r]"

definition upcastListType :: "view_item \<Rightarrow> node \<Rightarrow> attr_value" where
  "upcastListType viewItem firstItem =
     (let listType = (if parentIs viewItem ''ol'' then VStr ''numbered'' else VStr ''bulleted'');
          firstItemListType = getAttribute firstItem ''listType''
      in case firstItemListType of
           None \<Rightarrow> listType
         | Some v \<Rightarrow> if isTruthy firstItemListType then v else listType)"

definition listItemUpcastConverter ::
  "(node \<Rightarrow> string \<Rightarrow> bool) \<Rightarrow> (nat \<Rightarrow> string) \<Rightarrow> view_item \<Rightarrow> (nat \<times> nat) option \<Rightarrow>
     upcast_state \<Rightarrow> upcast_state" where
  "listItemUpcastConverter checkAttribute uid viewItem modelRange st =
     (case modelRange of
        None \<Rightarrow> st
      | Some r \<Rightarrow>
          (let items = upcastItems checkAttribute (modelNodes st) r in
           if items = [] then st
           else
             (let listItemId = uid (uidCounter st);
                  listIndent = getIndent viewItem;
                  listType = upcastListType viewItem (modelNodes st ! (items ! 0));
                  attributes = [(''listItemId'', VStr listItemId), (''listIndent'', VNum listIndent),
                                (''listType'', listType)];
                  m = setListAttributes attributes items (modelNodes st);
                  kept = (if length items > 1 \<and>
                             getAttribute (m ! (items ! 1)) ''listItemId'' \<noteq> Some (VStr listItemId)
                          then keptEmptyElements st @ [items ! 0]
                          else keptEmptyElements st)
              in st\<lparr>uidCounter := Suc (uidCounter st), modelNodes := m,
                     keptEmptyElements := kept\<rparr>)))"

section \<open>Downcast converters\<close>

text \<open>
  Modelled from the spec: \<^verbatim>\<open>ListWalker.first( item, { lowerIndent: true } )\<close> of
  \<^verbatim>\<open>utils/listwalker\<close> is not among the sources. It is "the nearest preceding block with
  lower indent": the walk goes backward over the sibling blocks before the item and ends at the
  first node that is not a list-item block. \<open>None\<close> is the source's \<^verbatim>\<open>null\<close>.
\<close>

definition firstLowerIndent :: "document \<Rightarrow> nat \<Rightarrow> nat option" where
  "firstLowerIndent doc i =
     (case i of
        0 \<Rightarrow> None
      | Suc j \<Rightarrow>
          (if i < length doc
           then map_option fst
                  (List.find (\<lambda>p. listIndentOf (snd p) < listIndentOf (doc ! i))
                     (iterateSiblingListBlocks doc j Backward))
           else None))"

text \<open>
  Modelled from the spec: \<^verbatim>\<open>isFirstBlockOfListItem\<close> of \<^verbatim>\<open>utils/model\<close> is not among the
  sources. A block is the first block of its item when no block of the item stands before it.
\<close>

definition isFirstBlockOfListItem :: "document \<Rightarrow> nat \<Rightarrow> bool" where
  "isFirstBlockOfListItem doc i = (getListItemBlocks doc i Backward = [])"

text \<open>
  The downcast strategies of \<^verbatim>\<open>listediting\<close>: an attribute strategy has the scope
  \<^verbatim>\<open>list\<close> or \<^verbatim>\<open>item\<close> and sets its attribute on a wrapper; a marker strategy has the scope
  \<^verbatim>\<open>itemMarker\<close>, creates the marker element (or none) and may wrap it. The writer and the
  \<^verbatim>\<open>dataPipeline\<close> option are left to the functions; the flag is their last argument.
\<close>

datatype scope = ListScope | ItemScope | ItemMarkerScope

record strategy =
  scope :: scope
  attributeName :: string
  setAttributeOnDowncast :: "attr_value \<Rightarrow> view_element \<Rightarrow> view_element"
  createElement :: "node \<Rightarrow> bool \<Rightarrow> view_element option"
  createWrapperElement :: "(node \<Rightarrow> bool \<Rightarrow> view_element) option"
  canWrapElement :: "(node \<Rightarrow> bool) option"

text \<open>
  A view element together with the elements inside it: a marker stands alone, the wrapper of
  a marker holds the marker.
\<close>

datatype view_tree = ViewTree view_element "view_tree list"

text \<open>
  The view around one block, as the converter reads it: the block's own (outermost mapped)
  view element, the view elements that a backward walk from the position before it meets up to
  the previous mapped element (each with what is inside it), and its ancestors from the parent
  outwards.
\<close>

record block_view =
  viewElement :: view_element
  nodesBefore :: "view_tree list"
  parents :: "view_element list"

text \<open>
  A view range that holds the block's view element: the elements of the range before the
  block's element (the nearest first) and around it (the innermost first), and what lies
  outside the range. \<^verbatim>\<open>writer.wrap( viewRange, element )\<close> returns the range around the new
  element, so the element becomes the outermost one inside the range.
\<close>

record view_range =
  rangeElement :: view_element
  rangeNodesBefore :: "view_tree list"
  rangeParents :: "view_element list"
  outerNodesBefore :: "view_tree list"
  outerParents :: "view_element list"

definition createRangeOn :: "block_view \<Rightarrow> view_range" where
  "createRangeOn bv =
     \<lparr>rangeElement = viewElement bv, rangeNodesBefore = [], rangeParents = [],
      outerNodesBefore = nodesBefore bv, outerParents = parents bv\<rparr>"

definition viewOfRange :: "view_range \<Rightarrow> block_view" where
  "viewOfRange vr =
     \<lparr>viewElement = rangeElement vr, nodesBefore = rangeNodesBefore vr @ outerNodesBefore vr,
      parents = rangeParents vr @ outerParents vr\<rparr>"

definition wrap :: "view_range \<Rightarrow> view_element \<Rightarrow> view_range" where
  "wrap vr e = vr\<lparr>rangeParents := rangeParents vr @ [e]\<rparr>"

text \<open>
  \<^verbatim>\<open>removeCustomMarkerElements\<close>. The first loop unwraps the parents that are attribute
  elements with the custom property \<^verbatim>\<open>listItemWrapper\<close>; reading the parent of an element
  that has none throws (\<open>None\<close>). The second collects the elements with the custom property
  \<^verbatim>\<open>listItemMarker\<close> that the backward walk meets before the block's element, also inside
  the elements it passes through, and removes them. \<^verbatim>\<open>writer.remove\<close> breaks the attribute
  elements around what it removes, so an attribute element that held nothing but removed
  markers goes with them.
\<close>

fun removeMarkers :: "view_tree \<Rightarrow> view_tree list" where
  "removeMarkers (ViewTree item inside) =
     (if getCustomProperty item ''listItemMarker'' = Some True then []
      else (let kept = concat (map removeMarkers inside) in
            if vkind item = AttributeElement \<and> inside \<noteq> [] \<and> kept = [] then []
            else [ViewTree item kept]))"

fun unwrapItemWrappers :: "view_element list \<Rightarrow> view_element list option" where
  "unwrapItemWrappers [] = None"
| "unwrapItemWrappers (p # ps) =
     (if vkind p = AttributeElement \<and> getCustomProperty p ''listItemWrapper'' = Some True
      then unwrapItemWrappers ps else Some (p # ps))"

definition removeCustomMarkerElements :: "block_view \<Rightarrow> block_view option" where
  "removeCustomMarkerElements bv =
     (case unwrapItemWrappers (parents bv) of
        None \<Rightarrow> None
      | Some ps \<Rightarrow>
          Some (bv\<lparr>parents := ps,
                   nodesBefore := concat (map removeMarkers (nodesBefore bv))\<rparr>))"

text \<open>
  \<^verbatim>\<open>unwrapListItemBlock\<close>: the attribute elements named \<^verbatim>\<open>ul\<close>, \<^verbatim>\<open>ol\<close> or \<^verbatim>\<open>li\<close> are
  unwrapped from the parent outwards, up to the first ancestor that is not one.
\<close>

fun unwrapListWrappers :: "view_element list \<Rightarrow> view_element list option" where
  "unwrapListWrappers [] = None"
| "unwrapListWrappers (attributeElement # ps) =
     (if vkind attributeElement = AttributeElement \<and>
         vname attributeElement \<in> set [''ul'', ''ol'', ''li'']
      then unwrapListWrappers ps else Some (attributeElement # ps))"

definition unwrapListItemBlock :: "block_view \<Rightarrow> block_view option" where
  "unwrapListItemBlock bv =
     (case unwrapListWrappers (parents bv) of
        None \<Rightarrow> None
      | Some ps \<Rightarrow> Some (bv\<lparr>parents := ps\<rparr>))"

text \<open>
  \<^verbatim>\<open>insertCustomMarkerElements\<close>: for the first block of an item, every marker strategy that
  creates an element has it tagged and inserted at the start of the range; a strategy with both
  \<^verbatim>\<open>createWrapperElement\<close> and \<^verbatim>\<open>canWrapElement\<close> then wraps the whole range, or only the
  marker: then the wrapper stands where the marker stood, with the marker inside it.
\<close>

fun insertMarkers :: "node \<Rightarrow> bool \<Rightarrow> strategy list \<Rightarrow> view_range \<Rightarrow> view_range" where
  "insertMarkers listItem dataPipeline [] viewRange = viewRange"
| "insertMarkers listItem dataPipeline (strategy # strategies) viewRange =
     (if scope strategy \<noteq> ItemMarkerScope
      then insertMarkers listItem dataPipeline strategies viewRange
      else (case createElement strategy listItem dataPipeline of
              None \<Rightarrow> insertMarkers listItem dataPipeline strategies viewRange
            | Some markerElement \<Rightarrow>
                (let marker = setCustomProperty ''listItemMarker'' True markerElement;
                     inserted =
                       viewRange\<lparr>rangeNodesBefore :=
                                   rangeNodesBefore viewRange @ [ViewTree marker []]\<rparr>
                 in case (createWrapperElement strategy, canWrapElement strategy) of
                      (Some createWrapper, Some canWrap) \<Rightarrow>
                        (let wrapper =
                               setCustomProperty ''listItemWrapper'' True
                                 (createWrapper listItem dataPipeline)
                         in if canWrap listItem
                            then insertMarkers listItem dataPipeline strategies
                                   (wrap inserted wrapper)
                            else insertMarkers listItem dataPipeline strategies
                                   (viewRange\<lparr>rangeNodesBefore :=
                                                rangeNodesBefore viewRange @
                                                  [ViewTree wrapper [ViewTree marker []]]\<rparr>))
                    | _ \<Rightarrow> insertMarkers listItem dataPipeline strategies inserted)))"

definition insertCustomMarkerElements ::
  "document \<Rightarrow> nat \<Rightarrow> block_view \<Rightarrow> strategy list \<Rightarrow> bool \<Rightarrow> view_range" where
  "insertCustomMarkerElements doc listItem bv strategies dataPipeline =
     (if \<not> isFirstBlockOfListItem doc listItem then createRangeOn bv
      else insertMarkers (doc ! listItem) dataPipeline strategies (createRangeOn bv))"

text \<open>
  Modelled from the spec: \<^verbatim>\<open>createListItemElement\<close> and \<^verbatim>\<open>createListElement\<close> of
  \<^verbatim>\<open>utils/view\<close> are not among the sources. They make the item wrapper (\<^verbatim>\<open>li\<close>) for an
  indent and an item id, and the list wrapper for an indent and a list type: \<^verbatim>\<open>ol\<close> for
  \<^verbatim>\<open>numbered\<close>, \<^verbatim>\<open>ul\<close> otherwise. Both are attribute elements.
\<close>

definition createListItemElement :: "nat \<Rightarrow> attr_value option \<Rightarrow> view_element" where
  "createListItemElement indent itemId =
     \<lparr>vkind = AttributeElement, vname = ''li'', vattrs = [], customProperties = [],
      vlevel = Some indent, vid = itemId\<rparr>"

definition createListElement :: "nat \<Rightarrow> attr_value option \<Rightarrow> view_element" where
  "createListElement indent listType =
     \<lparr>vkind = AttributeElement,
      vname = (if listType = Some (VStr ''numbered'') then ''ol'' else ''ul''),
      vattrs = [], customProperties = [], vlevel = Some indent, vid = listType\<rparr>"

text \<open>
  The inner loop of \<^verbatim>\<open>wrapListItemBlock\<close>: every strategy of scope \<^verbatim>\<open>list\<close> or \<^verbatim>\<open>item\<close>
  whose attribute is set on the current list item sets it on the list or on the item wrapper.
  The pair is (item wrapper, list wrapper).
\<close>

fun applyStrategies ::
  "strategy list \<Rightarrow> node \<Rightarrow> view_element \<times> view_element \<Rightarrow> view_element \<times> view_element" where
  "applyStrategies [] currentListItem els = els"
| "applyStrategies (strategy # strategies) currentListItem (listItemViewElement, listViewElement) =
     (if (scope strategy = ListScope \<or> scope strategy = ItemScope) \<and>
         hasAttribute currentListItem (attributeName strategy)
      then (case getAttribute currentListItem (attributeName strategy) of
              None \<Rightarrow> applyStrategies strategies currentListItem
                        (listItemViewElement, listViewElement)
            | Some v \<Rightarrow>
                (if scope strategy = ListScope
                 then applyStrategies strategies currentListItem
                        (listItemViewElement, setAttributeOnDowncast strategy v listViewElement)
                 else applyStrategies strategies currentListItem
                        (setAttributeOnDowncast strategy v listItemViewElement, listViewElement)))
      else applyStrategies strategies currentListItem (listItemViewElement, listViewElement))"

definition levelWrappers :: "strategy list \<Rightarrow> nat \<Rightarrow> node \<Rightarrow> view_element \<times> view_element" where
  "levelWrappers strategies indent currentListItem =
     applyStrategies strategies currentListItem
       (createListItemElement indent (getAttribute currentListItem ''listItemId''),
        createListElement indent (getAttribute currentListItem ''listType''))"

text \<open>
  The outer loop of \<^verbatim>\<open>wrapListItemBlock\<close>, from the indent of the list item down to 0: the
  range is wrapped with the item wrapper, then with the list wrapper; at indent 0 the loop ends,
  and it ends early when no list item of a lower indent precedes the current one.
\<close>

fun wrapLevels :: "document \<Rightarrow> strategy list \<Rightarrow> nat \<Rightarrow> nat \<Rightarrow> view_range \<Rightarrow> view_range" where
  "wrapLevels doc strategies 0 currentListItem viewRange =
     wrap (wrap viewRange (fst (levelWrappers strategies 0 (doc ! currentListItem))))
       (snd (levelWrappers strategies 0 (doc ! currentListItem)))"
| "wrapLevels doc strategies (Suc indent) currentListItem viewRange =
     (let wrapped =
            wrap (wrap viewRange (fst (levelWrappers strategies (Suc indent) (doc ! currentListItem))))
              (snd (levelWrappers strategies (Suc indent) (doc ! currentListItem)))
      in case firstLowerIndent doc currentListItem of
           None \<Rightarrow> wrapped
         | Some lower \<Rightarrow> wrapLevels doc strategies indent lower wrapped)"

definition wrapListItemBlock ::
  "document \<Rightarrow> nat \<Rightarrow> view_range \<Rightarrow> strategy list \<Rightarrow> view_range" where
  "wrapListItemBlock doc listItem viewRange strategies =
     (if \<not> hasAttribute (doc ! listItem) ''listIndent'' then viewRange
      else wrapLevels doc strategies (listIndentOf (doc ! listItem)) listItem viewRange)"

text \<open>
  The model consumable: \<^verbatim>\<open>test\<close> answers \<open>Some True\<close> for an event that can still be
  consumed, \<open>Some False\<close> for a consumed one and \<open>None\<close> (\<^verbatim>\<open>null\<close>) for one that was never
  added; \<^verbatim>\<open>consume\<close> marks a consumable event consumed.
\<close>

type_synonym consumable = "nat \<times> string \<Rightarrow> bool option"

definition consume :: "consumable \<Rightarrow> nat \<Rightarrow> string \<Rightarrow> consumable" where
  "consume c item event = (if c (item, event) = Some True then c((item, event) := Some False) else c)"

definition consumerEvents :: "string list \<Rightarrow> node \<Rightarrow> string list" where
  "consumerEvents attributeNames n =
     map (\<lambda>attributeName. ''attribute:'' @ attributeName)
       (filter (\<lambda>attributeName. hasAttribute n attributeName) attributeNames)"

text \<open>
  \<^verbatim>\<open>createAttributesConsumer\<close>: the events of all the list attributes set on the node are
  tested; when one of them tests \<^verbatim>\<open>false\<close> nothing is consumed and the answer is false,
  otherwise all are consumed.
\<close>

definition createAttributesConsumer ::
  "string list \<Rightarrow> document \<Rightarrow> nat \<Rightarrow> consumable \<Rightarrow> bool \<times> consumable" where
  "createAttributesConsumer attributeNames doc item c =
     (let events = consumerEvents attributeNames (doc ! item) in
      if \<not> list_all (\<lambda>event. c (item, event) \<noteq> Some False) events then (False, c)
      else (True, foldl (\<lambda>c' event. consume c' item event) c events))"

text \<open>
  The state of a downcast conversion: the view of every block that is mapped (what
  \<^verbatim>\<open>findMappedViewElement\<close> finds, \<open>None\<close> for \<^verbatim>\<open>null\<close>) and the consumable.
\<close>

record downcast_state =
  blockViews :: "nat \<Rightarrow> block_view option"
  consumables :: consumable

text \<open>
  \<^verbatim>\<open>listItemDowncastConverter\<close> for the event of \<open>attributeKey\<close> on \<open>listItem\<close>. The result is
  \<open>None\<close> when the source throws: the mapped view element is asserted to exist and its
  parent is read.
\<close>

definition listItemDowncastConverter ::
  "string list \<Rightarrow> strategy list \<Rightarrow> bool \<Rightarrow> document \<Rightarrow> nat \<Rightarrow> string \<Rightarrow> downcast_state \<Rightarrow>
     downcast_state option" where
  "listItemDowncastConverter attributeNames strategies dataPipeline doc listItem attributeKey st =
     (if attributeKey \<notin> set attributeNames then Some st
      else (case createAttributesConsumer attributeNames doc listItem (consumables st) of
              (False, c) \<Rightarrow> Some st
            | (True, c) \<Rightarrow>
                (case blockViews st listItem of
                   None \<Rightarrow> None
                 | Some found \<Rightarrow>
                     (case removeCustomMarkerElements found of
                        None \<Rightarrow> None
                      | Some removed \<Rightarrow>
                          (case unwrapListItemBlock removed of
                             None \<Rightarrow> None
                           | Some unwrapped \<Rightarrow>
                               (let viewRange =
                                      insertCustomMarkerElements doc listItem unwrapped strategies
                                        dataPipeline;
                                    wrapped = wrapListItemBlock doc listItem viewRange strategies
                                in Some \<lparr>blockViews =
                                           (blockViews st)(listItem := Some (viewOfRange wrapped)),
                                         consumables = c\<rparr>))))))"

text \<open>
  For the statement of what \<^verbatim>\<open>wrapListItemBlock\<close> builds: the levels it wraps at, each with
  the block that governs it. The block itself governs its own indent; the block governing the
  next lower level is the nearest preceding block of a lower indent than the one before, and
  the chain ends where there is none.
\<close>

fun governingBlocks :: "document \<Rightarrow> nat \<Rightarrow> nat \<Rightarrow> (nat \<times> nat) list" where
  "governingBlocks doc 0 c = [(0, c)]"
| "governingBlocks doc (Suc k) c =
     (Suc k, c) # (case firstLowerIndent doc c of None \<Rightarrow> [] | Some l \<Rightarrow> governingBlocks doc k l)"

text \<open>
  The view attributes of every registered strategy of one scope whose attribute is set on a
  block, put onto an element in the order of registration.
\<close>

definition strategyAttributes :: "scope \<Rightarrow> strategy list \<Rightarrow> node \<Rightarrow> view_element \<Rightarrow> view_element" where
  "strategyAttributes sc strategies n e =
     foldl (\<lambda>e' s. case getAttribute n (attributeName s) of
                      None \<Rightarrow> e' | Some v \<Rightarrow> setAttributeOnDowncast s v e')
       e (filter (\<lambda>s. scope s = sc) strategies)"

text \<open>The item wrapper and the list wrapper of one level, as the claim describes them.\<close>

definition wrapperPair :: "document \<Rightarrow> strategy list \<Rightarrow> nat \<times> nat \<Rightarrow> view_element list" where
  "wrapperPair doc strategies lc =
     [strategyAttributes ItemScope strategies (doc ! snd lc)
        (createListItemElement (fst lc) (getAttribute (doc ! snd lc) ''listItemId'')),
      strategyAttributes ListScope strategies (doc ! snd lc)
        (createListElement (fst lc) (getAttribute (doc ! snd lc) ''listType''))]"

section \<open>The reconversion scheduler\<close>

text \<open>
  What \<^verbatim>\<open>reconvertItemsOnDataChange\<close> reads of its collaborators: the mapper
  (\<^verbatim>\<open>editing.mapper.toViewElement\<close>, with the ancestors of the view element), and the answers
  of the events \<^verbatim>\<open>checkElement\<close> and \<^verbatim>\<open>checkAttributes:item\<close> / \<^verbatim>\<open>checkAttributes:list\<close>
  fired on the list editing plugin (true when a refresh is needed; the first argument of
  \<open>checkAttributes\<close> is true for the item event).
\<close>

record editing =
  toViewElement :: "nat \<Rightarrow> block_view option"
  checkElement :: "node \<Rightarrow> view_element \<Rightarrow> bool"
  checkAttributes :: "bool \<Rightarrow> view_element \<Rightarrow> (string \<times> attr_value) list option \<Rightarrow> bool"

text \<open>
  \<^verbatim>\<open>doesItemBlockRequiresRefresh\<close>; \<open>blocks\<close> is \<open>None\<close> when the caller passes none, and
  \<^verbatim>\<open>shouldUseBogusParagraph\<close> then takes all blocks of the item.
\<close>

definition doesItemBlockRequiresRefresh ::
  "editing \<Rightarrow> string list \<Rightarrow> document \<Rightarrow> nat \<Rightarrow> nat list option \<Rightarrow> bool" where
  "doesItemBlockRequiresRefresh ed attributeNames doc item blocks =
     (case toViewElement ed item of
        None \<Rightarrow> False
      | Some v \<Rightarrow>
          (if checkElement ed (doc ! item) (viewElement v) then True
           else if \<not> (kind (doc ! item) = ElementNode \<and> name (doc ! item) = ''paragraph'') \<and>
                   \<not> (kind (doc ! item) = ElementNode \<and> name (doc ! item) = ''listItem'')
           then False
           else
             (let useBogus =
                    shouldUseBogusParagraph (doc ! item) attributeNames
                      (case blocks of None \<Rightarrow> getAllListItemBlocks doc item | Some bs \<Rightarrow> bs)
              in if useBogus \<and> vname (viewElement v) = ''p'' then True
                 else if \<not> useBogus \<and> vname (viewElement v) = ''span'' then True
                 else False)))"

text \<open>
  The stack of attribute snapshots is a JavaScript array: setting its length cuts it or pads
  it with holes, writing past its end pads it with holes, and reading a hole or outside it
  gives \<^verbatim>\<open>undefined\<close> (\<open>None\<close>).
\<close>

type_synonym attribute_stack = "(string \<times> attr_value) list option list"

definition setLength :: "attribute_stack \<Rightarrow> nat \<Rightarrow> attribute_stack" where
  "setLength stack n = take n stack @ replicate (n - length stack) None"

definition setAt :: "attribute_stack \<Rightarrow> nat \<Rightarrow> (string \<times> attr_value) list \<Rightarrow> attribute_stack" where
  "setAt stack i v = (setLength stack (max (length stack) (Suc i)))[i := Some v]"

definition stackAt :: "attribute_stack \<Rightarrow> int \<Rightarrow> (string \<times> attr_value) list option" where
  "stackAt stack i = (if 0 \<le> i \<and> nat i < length stack then stack ! nat i else None)"

text \<open>
  The loop of \<^verbatim>\<open>doesItemWrappingRequiresRefresh\<close> over the ancestors of the view element.
  Reaching the editable element ends the loop and the answer is true; so does a wrapper whose
  check asks for a refresh (\<^verbatim>\<open>break\<close>). Each list element passed lowers the indent, and
  below 0 the answer is false. An ancestor chain that ends with no editable element throws
  (\<open>None\<close>).
\<close>

fun wrappingLoop :: "editing \<Rightarrow> attribute_stack \<Rightarrow> int \<Rightarrow> view_element list \<Rightarrow> bool option" where
  "wrappingLoop ed stack indent [] = None"
| "wrappingLoop ed stack indent (element # ancestors) =
     (if vkind element = EditableElement then Some True
      else if \<not> isListView element \<and> \<not> isListItemView element
      then wrappingLoop ed stack indent ancestors
      else if checkAttributes ed (isListItemView element) element (stackAt stack indent)
      then Some True
      else if isListView element
      then (if indent - 1 < 0 then Some False else wrappingLoop ed stack (indent - 1) ancestors)
      else wrappingLoop ed stack indent ancestors)"

definition doesItemWrappingRequiresRefresh ::
  "editing \<Rightarrow> nat \<Rightarrow> attribute_stack \<Rightarrow> nat list \<Rightarrow> bool option" where
  "doesItemWrappingRequiresRefresh ed item stack changedItems =
     (if item \<in> set changedItems then Some False
      else (case toViewElement ed item of
              None \<Rightarrow> None
            | Some v \<Rightarrow> wrappingLoop ed stack (int (length stack) - 1) (parents v)))"

text \<open>
  The two checks that \<^verbatim>\<open>collectListItemsToRefresh\<close> makes on a block: the bogus paragraph
  check and, when that asks for nothing, the wrapper check. \<open>Some True\<close> pushes the block onto
  \<open>itemsToRefresh\<close>, \<open>None\<close> is a throw.
\<close>

definition checkBlock ::
  "editing \<Rightarrow> string list \<Rightarrow> document \<Rightarrow> nat list \<Rightarrow> attribute_stack \<Rightarrow> nat list \<Rightarrow> nat \<Rightarrow>
     bool option" where
  "checkBlock ed attributeNames doc changedItems stack blocks block =
     (if doesItemBlockRequiresRefresh ed attributeNames doc block (Some blocks) then Some True
      else doesItemWrappingRequiresRefresh ed block stack changedItems)"

text \<open>
  The loop of \<^verbatim>\<open>collectListItemsToRefresh\<close> over the sibling list blocks from the list head
  on, with the iterator's previous node, the visited set and the stack. The result is the
  sequence of the blocks the inner loop examines, each with the answer of its checks, in the
  order of the examination.
\<close>

fun collectLoop ::
  "editing \<Rightarrow> string list \<Rightarrow> document \<Rightarrow> nat list \<Rightarrow> (nat \<times> node) list \<Rightarrow> node option \<Rightarrow>
     nat list \<Rightarrow> attribute_stack \<Rightarrow> (nat \<times> bool option) list" where
  "collectLoop ed attributeNames doc changedItems [] previous visited stack = []"
| "collectLoop ed attributeNames doc changedItems ((i, n) # rest) previous visited stack =
     (if i \<in> set visited
      then collectLoop ed attributeNames doc changedItems rest (Some n) visited stack
      else
        (let itemIndent = listIndentOf n;
             trimmed =
               (case previous of
                  None \<Rightarrow> stack
                | Some p \<Rightarrow>
                    if itemIndent < listIndentOf p then setLength stack (itemIndent + 1)
                    else stack);
             stack' =
               setAt trimmed itemIndent (filter (\<lambda>a. fst a \<in> set attributeNames) (attrs n));
             blocks = getListItemBlocks doc i Forward
         in map (\<lambda>block. (block, checkBlock ed attributeNames doc changedItems stack' blocks block))
              blocks @
            collectLoop ed attributeNames doc changedItems rest (Some n) (visited @ blocks)
              stack'))"

definition collectChecks ::
  "editing \<Rightarrow> string list \<Rightarrow> document \<Rightarrow> nat \<Rightarrow> nat list \<Rightarrow> (nat \<times> bool option) list" where
  "collectChecks ed attributeNames doc listHead changedItems =
     collectLoop ed attributeNames doc changedItems
       (iterateSiblingListBlocks doc listHead Forward) None [] []"

text \<open>
  \<^verbatim>\<open>collectListItemsToRefresh\<close>: the examined blocks whose checks ask for a refresh, in
  order; \<open>None\<close> when a check throws.
\<close>

definition collectListItemsToRefresh ::
  "editing \<Rightarrow> string list \<Rightarrow> document \<Rightarrow> nat \<Rightarrow> nat list \<Rightarrow> nat list option" where
  "collectListItemsToRefresh ed attributeNames doc listHead changedItems =
     (let checks = collectChecks ed attributeNames doc listHead changedItems in
      if list_ex (\<lambda>c. snd c = None) checks then None
      else Some (map fst (filter (\<lambda>c. snd c = Some True) checks)))"

text \<open>The entries of the differ, with what the scheduler reads of them.\<close>

datatype diff_entry =
    InsertEntry string nat nat "(string \<times> attr_value) list"
  | RemoveEntry string nat nat "(string \<times> attr_value) list"
  | AttributeEntry nat string "attr_value option" "attr_value option"

definition nodeAfter :: "document \<Rightarrow> nat \<Rightarrow> nat option" where
  "nodeAfter doc position = (if position < length doc then Some position else None)"

definition nodeBefore :: "document \<Rightarrow> nat \<Rightarrow> nat option" where
  "nodeBefore doc position =
     (case position of 0 \<Rightarrow> None | Suc p \<Rightarrow> if p < length doc then Some p else None)"

text \<open>
  Modelled from the spec: \<^verbatim>\<open>findAndAddListHeadToMap\<close> of \<^verbatim>\<open>utils/postfixers\<close> is not among
  the sources. It records the head of the list at a position as a candidate, a list head
  being "the first block of a contiguous run of sibling list blocks": when the node before the
  position is a list-item block, the first block of its run (found walking backward), otherwise
  the node after the position when that is a list-item block. The map goes from the block the
  head was found from to the head, and a head is recorded once ("each distinct list head").
\<close>

definition listHeadAt :: "document \<Rightarrow> nat \<Rightarrow> (nat \<times> nat) option" where
  "listHeadAt doc position =
     (case nodeBefore doc position of
        Some previousNode \<Rightarrow>
          if isListItemBlock (doc ! previousNode)
          then Some (previousNode,
                     foldl (\<lambda>listHead p. fst p) previousNode
                       (iterateSiblingListBlocks doc previousNode Backward))
          else (case nodeAfter doc position of
                  Some item \<Rightarrow> if isListItemBlock (doc ! item) then Some (item, item) else None
                | None \<Rightarrow> None)
      | None \<Rightarrow>
          (case nodeAfter doc position of
             Some item \<Rightarrow> if isListItemBlock (doc ! item) then Some (item, item) else None
           | None \<Rightarrow> None))"

definition findAndAddListHeadToMap ::
  "document \<Rightarrow> nat \<Rightarrow> (nat \<times> nat) list \<Rightarrow> (nat \<times> nat) list" where
  "findAndAddListHeadToMap doc position itemToListHead =
     (case listHeadAt doc position of
        None \<Rightarrow> itemToListHead
      | Some (item, listHead) \<Rightarrow>
          if listHead \<in> snd ` set itemToListHead then itemToListHead
          else itemToListHead @ [(item, listHead)])"

text \<open>
  The three collections that the scan of the changes fills: the map from items to list
  heads, the set of changed items and the array of items to refresh.
\<close>

record scan_state =
  itemToListHead :: "(nat \<times> nat) list"
  changedItems :: "nat list"
  itemsToRefresh :: "nat list"

definition pushIfRequired ::
  "editing \<Rightarrow> string list \<Rightarrow> document \<Rightarrow> nat option \<Rightarrow> scan_state \<Rightarrow> scan_state" where
  "pushIfRequired ed attributeNames doc item st =
     (case item of
        None \<Rightarrow> st
      | Some i \<Rightarrow>
          if doesItemBlockRequiresRefresh ed attributeNames doc i None
          then st\<lparr>itemsToRefresh := itemsToRefresh st @ [i]\<rparr> else st)"

definition addChanged :: "nat option \<Rightarrow> scan_state \<Rightarrow> scan_state" where
  "addChanged item st =
     (case item of None \<Rightarrow> st | Some i \<Rightarrow> st\<lparr>changedItems := changedItems st @ [i]\<rparr>)"

definition addListHead :: "document \<Rightarrow> nat \<Rightarrow> scan_state \<Rightarrow> scan_state" where
  "addListHead doc position st =
     st\<lparr>itemToListHead := findAndAddListHeadToMap doc position (itemToListHead st)\<rparr>"

text \<open>The body of the loop over the changes of the differ.\<close>

fun scanEntry ::
  "editing \<Rightarrow> string list \<Rightarrow> document \<Rightarrow> diff_entry \<Rightarrow> scan_state \<Rightarrow> scan_state" where
  "scanEntry ed attributeNames doc (InsertEntry nm position len attributes) st =
     (if nm \<noteq> ''$text''
      then (let st' = addListHead doc position st in
            if ''listItemId'' \<notin> fst ` set attributes
            then addListHead doc (position + len) st'
            else addChanged (nodeAfter doc position) st')
      else st)"
| "scanEntry ed attributeNames doc (RemoveEntry nm position len attributes) st =
     (if ''listItemId'' \<in> fst ` set attributes then addListHead doc position st else st)"
| "scanEntry ed attributeNames doc (AttributeEntry start attributeKey old new) st =
     (let item = nodeAfter doc start in
      if attributeKey \<in> set attributeNames
      then (let st' = addListHead doc start st in
            if new = None
            then pushIfRequired ed attributeNames doc item (addListHead doc (start + 1) st')
            else addChanged item st')
      else if (case item of None \<Rightarrow> False | Some i \<Rightarrow> isListItemBlock (doc ! i))
      then pushIfRequired ed attributeNames doc item st
      else st)"

text \<open>
  A JavaScript \<^verbatim>\<open>Set\<close> built from an array keeps the first occurrence of each element, in
  order.
\<close>

fun setOf :: "nat list \<Rightarrow> nat list" where
  "setOf [] = []"
| "setOf (x # xs) = x # filter (\<lambda>y. y \<noteq> x) (setOf xs)"

text \<open>The loop over the list heads, which appends what each walk collects.\<close>

fun collectAll ::
  "editing \<Rightarrow> string list \<Rightarrow> document \<Rightarrow> nat list \<Rightarrow> nat list \<Rightarrow> nat list \<Rightarrow> nat list option" where
  "collectAll ed attributeNames doc changed [] items = Some items"
| "collectAll ed attributeNames doc changed (listHead # listHeads) items =
     (case collectListItemsToRefresh ed attributeNames doc listHead changed of
        None \<Rightarrow> None
      | Some found \<Rightarrow> collectAll ed attributeNames doc changed listHeads (items @ found))"

text \<open>
  \<^verbatim>\<open>reconvertItemsOnDataChange\<close>: the scan of the changes, the walks from the list heads, and
  the calls of \<^verbatim>\<open>editing.reconvertItem\<close>, returned in their order (\<open>None\<close> when a check
  throws).
\<close>

definition scanChanges ::
  "editing \<Rightarrow> string list \<Rightarrow> document \<Rightarrow> diff_entry list \<Rightarrow> scan_state" where
  "scanChanges ed attributeNames doc changes =
     foldl (\<lambda>st entry. scanEntry ed attributeNames doc entry st)
       \<lparr>itemToListHead = [], changedItems = [], itemsToRefresh = []\<rparr> changes"

definition reconvertItemsOnDataChange ::
  "editing \<Rightarrow> string list \<Rightarrow> document \<Rightarrow> diff_entry list \<Rightarrow> nat list option" where
  "reconvertItemsOnDataChange ed attributeNames doc changes =
     (let st = scanChanges ed attributeNames doc changes in
      map_option setOf
        (collectAll ed attributeNames doc (changedItems st) (map snd (itemToListHead st))
           (itemsToRefresh st)))"

text \<open>
  Two invariants of the walk of \<^verbatim>\<open>collectListItemsToRefresh\<close>, for the proofs: every
  remaining element is the start of its own forward iteration, and the blocks of an element
  not yet visited are not visited either.
\<close>

definition walkList :: "document \<Rightarrow> (nat \<times> node) list \<Rightarrow> bool" where
  "walkList doc xs =
     (\<forall>pre i n rest. xs = pre @ (i, n) # rest \<longrightarrow>
        iterateSiblingListBlocks doc i Forward = (i, n) # rest \<and> i < length doc \<and> n = doc ! i)"

definition walkInv :: "nat list \<Rightarrow> (nat \<times> node) list \<Rightarrow> bool" where
  "walkInv visited xs =
     (\<forall>pre i n rest. xs = pre @ (i, n) # rest \<longrightarrow> i \<notin> set visited \<longrightarrow>
        set (sameItemWalk n rest) \<inter> set visited = {})"

text \<open>
  The head of a contiguous run of list-item blocks: a list-item block with no list-item block
  before it.
\<close>

definition isRunHead :: "document \<Rightarrow> nat \<Rightarrow> bool" where
  "isRunHead doc h =
     (h < length doc \<and> isListItemBlock (doc ! h) \<and> (h = 0 \<or> \<not> isListItemBlock (doc ! (h - 1))))"

text \<open>The recorded list heads are pairwise different and each is the head of a run.\<close>

definition headsOk :: "document \<Rightarrow> (nat \<times> nat) list \<Rightarrow> bool" where
  "headsOk doc m = (distinct (map snd m) \<and> (\<forall>h \<in> snd ` set m. isRunHead doc h))"

text \<open>
  The blocks that one run of the scheduler examines, in order: for each recorded list head in
  turn, the blocks that the walk from it hands to its checks.
\<close>

definition examinedBlocks ::
  "editing \<Rightarrow> string list \<Rightarrow> document \<Rightarrow> diff_entry list \<Rightarrow> nat list" where
  "examinedBlocks ed attributeNames doc changes =
     (let st = scanChanges ed attributeNames doc changes in
      concat (map (\<lambda>listHead. map fst (collectChecks ed attributeNames doc listHead (changedItems st)))
                (map snd (itemToListHead st))))"


text \<open>
  What the walk of \<^verbatim>\<open>collectListItemsToRefresh\<close> hands to the two checks of each block it
  examines: the block, the stack as it stands for the block's item, and the blocks of that
  item. It is the loop of \<open>collectLoop\<close> with the checks left out; \<open>collectLoop\<close> is this with
  the checks applied.
\<close>

fun walkContexts ::
  "string list \<Rightarrow> document \<Rightarrow> (nat \<times> node) list \<Rightarrow> node option \<Rightarrow> nat list \<Rightarrow> attribute_stack \<Rightarrow>
     (nat \<times> attribute_stack \<times> nat list) list" where
  "walkContexts attributeNames doc [] previous visited stack = []"
| "walkContexts attributeNames doc ((i, n) # rest) previous visited stack =
     (if i \<in> set visited
      then walkContexts attributeNames doc rest (Some n) visited stack
      else
        (let itemIndent = listIndentOf n;
             trimmed =
               (case previous of
                  None \<Rightarrow> stack
                | Some p \<Rightarrow>
                    if itemIndent < listIndentOf p then setLength stack (itemIndent + 1)
                    else stack);
             stack' =
               setAt trimmed itemIndent (filter (\<lambda>a. fst a \<in> set attributeNames) (attrs n));
             blocks = getListItemBlocks doc i Forward
         in map (\<lambda>block. (block, stack', blocks)) blocks @
            walkContexts attributeNames doc rest (Some n) (visited @ blocks) stack'))"

text \<open>
  The blocks that the walk from a list head examines, with their stack and blocks.
\<close>

definition contextsFrom ::
  "string list \<Rightarrow> document \<Rightarrow> nat \<Rightarrow> (nat \<times> attribute_stack \<times> nat list) list" where
  "contextsFrom attributeNames doc listHead =
     walkContexts attributeNames doc (iterateSiblingListBlocks doc listHead Forward) None [] []"

text \<open>
  Two blocks of the same indent and the same item id.
\<close>

definition sameItem :: "node \<Rightarrow> node \<Rightarrow> bool" where
  "sameItem a b \<longleftrightarrow>
     listIndentOf a = listIndentOf b \<and> getAttribute a ''listItemId'' = getAttribute b ''listItemId''"

text \<open>
  The snapshot of a block that the walk writes to the stack: its attributes of a recognized
  name.
\<close>

definition snapshot :: "string list \<Rightarrow> node \<Rightarrow> (string \<times> attr_value) list" where
  "snapshot attributeNames n = filter (\<lambda>a. fst a \<in> set attributeNames) (attrs n)"

text \<open>
  The snapshot that governs level \<open>l\<close> at a block, read off the blocks from the list head up to
  the block (\<open>ctx\<close>, the block itself first, then the blocks before it, the nearest first). The
  nearest block whose indent is not above \<open>l\<close> decides: when its indent is \<open>l\<close>, the level has
  the snapshot of the first block of its item, which is the first of the adjacent blocks of
  the same item that it ends; otherwise the level is a hole.
\<close>

definition levelSnapshot :: "string list \<Rightarrow> node list \<Rightarrow> nat \<Rightarrow> (string \<times> attr_value) list option" where
  "levelSnapshot attributeNames ctx l =
     (case dropWhile (\<lambda>x. l < listIndentOf x) ctx of
        [] \<Rightarrow> None
      | g # earlier \<Rightarrow>
          if listIndentOf g = l
          then Some (snapshot attributeNames (last (g # takeWhile (sameItem g) earlier)))
          else None)"

text \<open>
  The stack to expect at a block: the governing snapshot of every level up to the indent of
  the block.
\<close>

definition expectedStack :: "string list \<Rightarrow> node list \<Rightarrow> attribute_stack" where
  "expectedStack attributeNames ctx =
     (case ctx of
        [] \<Rightarrow> []
      | n # earlier \<Rightarrow> map (levelSnapshot attributeNames ctx) [0 ..< Suc (listIndentOf n)])"

text \<open>
  The blocks from the list head up to block \<open>b\<close>, \<open>b\<close> first.
\<close>

definition blocksUpTo :: "document \<Rightarrow> nat \<Rightarrow> nat \<Rightarrow> node list" where
  "blocksUpTo doc listHead b = rev (take (Suc b - listHead) (drop listHead doc))"

text \<open>
  In the run of list blocks from a list head the blocks of every item are adjacent: the blocks
  of the item found forward from any block of the run have consecutive offsets. A list in which
  an item continues after a nested list is not of this kind.
\<close>

definition adjacentItems :: "document \<Rightarrow> nat \<Rightarrow> bool" where
  "adjacentItems doc listHead =
     list_all (\<lambda>p. getListItemBlocks doc (fst p) Forward =
                     [fst p ..< fst p + length (getListItemBlocks doc (fst p) Forward)])
       (iterateSiblingListBlocks doc listHead Forward)"

section \<open>The round trip\<close>

text \<open>
  Modelled from the spec: the upcast dispatcher, which walks the view tree and calls the
  converters, is not among the sources. This is nested list markup as it converts: a list
  (\<^verbatim>\<open>ol\<close> or \<^verbatim>\<open>ul\<close>) is a sequence of items; an item is a block of its own followed by
  further blocks and nested lists, in any order. Every item has the block of its own: the
  list item upcast keeps the first block of an item that holds only a nested list, so that
  "an item that contains only a nested list" does not "lose its own paragraph".
\<close>

datatype list_name = Ol | Ul

datatype item = Item "content list"
  and content = Block | Nested list_name "item list"

text \<open>
  The element name of a list.
\<close>

definition listNameOf :: "list_name \<Rightarrow> string" where
  "listNameOf k = (case k of Ol \<Rightarrow> ''ol'' | Ul \<Rightarrow> ''ul'')"

text \<open>
  The block converters run before the list item converter ("invoked once a subtree's children
  have already been converted to model blocks"): a block of the markup becomes one paragraph
  without list attributes at the end of the document.
\<close>

definition appendBlock :: "upcast_state \<Rightarrow> upcast_state" where
  "appendBlock st =
     st\<lparr>modelNodes := modelNodes st @ [\<lparr>kind = ElementNode, name = ''paragraph'', attrs = []\<rparr>]\<rparr>"

text \<open>
  Modelled from the spec: the traversal of the upcast dispatcher is not among the sources.
  The items of a list are converted in order. For an item (\<^verbatim>\<open>li\<close>) its children are converted
  first, the nested lists with the \<^verbatim>\<open>li\<close> and its list among their ancestors; then
  \<^verbatim>\<open>listItemUpcastConverter\<close> of the source runs on the range of the blocks converted for the
  item, at the view position of the \<^verbatim>\<open>li\<close>. \<open>ancestors\<close> are the names of the elements around
  the list, innermost first.
\<close>

fun convertItems ::
  "(node \<Rightarrow> string \<Rightarrow> bool) \<Rightarrow> (nat \<Rightarrow> string) \<Rightarrow> list_name \<Rightarrow> string list \<Rightarrow> item list \<Rightarrow>
     upcast_state \<Rightarrow> upcast_state"
  and convertItem ::
  "(node \<Rightarrow> string \<Rightarrow> bool) \<Rightarrow> (nat \<Rightarrow> string) \<Rightarrow> list_name \<Rightarrow> string list \<Rightarrow> item \<Rightarrow>
     upcast_state \<Rightarrow> upcast_state"
  and convertContents ::
  "(node \<Rightarrow> string \<Rightarrow> bool) \<Rightarrow> (nat \<Rightarrow> string) \<Rightarrow> string list \<Rightarrow> content list \<Rightarrow>
     upcast_state \<Rightarrow> upcast_state"
where
  "convertItems chk uid k ancestors [] st = st"
| "convertItems chk uid k ancestors (it # its) st =
     convertItems chk uid k ancestors its (convertItem chk uid k ancestors it st)"
| "convertItem chk uid k ancestors (Item cs) st =
     (let s = length (modelNodes st);
          st' = convertContents chk uid (''li'' # listNameOf k # ancestors) cs (appendBlock st)
      in listItemUpcastConverter chk uid \<lparr>viewAncestors = listNameOf k # ancestors\<rparr>
           (Some (s, length (modelNodes st'))) st')"
| "convertContents chk uid ancestors [] st = st"
| "convertContents chk uid ancestors (Block # cs) st =
     convertContents chk uid ancestors cs (appendBlock st)"
| "convertContents chk uid ancestors (Nested k its # cs) st =
     convertContents chk uid ancestors cs (convertItems chk uid k ancestors its st)"

text \<open>
  The number of items of a markup: how many item ids its conversion draws.
\<close>

fun countItems :: "item list \<Rightarrow> nat"
  and countItem :: "item \<Rightarrow> nat"
  and countContents :: "content list \<Rightarrow> nat"
where
  "countItems [] = 0"
| "countItems (it # its) = countItem it + countItems its"
| "countItem (Item cs) = Suc (countContents cs)"
| "countContents [] = 0"
| "countContents (Block # cs) = countContents cs"
| "countContents (Nested k its # cs) = countItems its + countContents cs"

text \<open>
  What the wrappers of a block are made from: the item id and the list type of each level,
  innermost first.
\<close>

type_synonym chain = "(attr_value option \<times> attr_value option) list"

text \<open>
  The list type that \<^verbatim>\<open>listItemUpcastConverter\<close> derives from the name of the list.
\<close>

definition listTypeOf :: "list_name \<Rightarrow> attr_value" where
  "listTypeOf k = (case k of Ol \<Rightarrow> VStr ''numbered'' | Ul \<Rightarrow> VStr ''bulleted'')"

text \<open>
  A paragraph with the three list attributes, in the order in which the converter sets them.
\<close>

definition itemBlock :: "string \<Rightarrow> nat \<Rightarrow> attr_value \<Rightarrow> node" where
  "itemBlock itemId indent listType =
     \<lparr>kind = ElementNode, name = ''paragraph'',
      attrs = [(''listItemId'', VStr itemId), (''listIndent'', VNum indent),
               (''listType'', listType)]\<rparr>"

text \<open>
  The flat encoding of a markup, written down directly: every block with the item id, indent
  \<open>d\<close> and list type of its item, and beside it the chain of the items around it. \<open>c\<close> is the
  number of ids drawn so far; an item draws its id after the items nested in it, because the
  converter runs after the children are converted.
\<close>

fun encItems ::
  "(nat \<Rightarrow> string) \<Rightarrow> list_name \<Rightarrow> nat \<Rightarrow> chain \<Rightarrow> item list \<Rightarrow> nat \<Rightarrow> (node \<times> chain) list"
  and encItem ::
  "(nat \<Rightarrow> string) \<Rightarrow> list_name \<Rightarrow> nat \<Rightarrow> chain \<Rightarrow> item \<Rightarrow> nat \<Rightarrow> (node \<times> chain) list"
  and encContents ::
  "(nat \<Rightarrow> string) \<Rightarrow> nat \<Rightarrow> node \<times> chain \<Rightarrow> content list \<Rightarrow> nat \<Rightarrow> (node \<times> chain) list"
where
  "encItems uid k d anc [] c = []"
| "encItems uid k d anc (it # its) c =
     encItem uid k d anc it c @ encItems uid k d anc its (c + countItem it)"
| "encItem uid k d anc (Item cs) c =
     (let own = (itemBlock (uid (c + countContents cs)) d (listTypeOf k),
                 (Some (VStr (uid (c + countContents cs))), Some (listTypeOf k)) # anc)
      in own # encContents uid d own cs c)"
| "encContents uid d own [] c = []"
| "encContents uid d own (Block # cs) c = own # encContents uid d own cs c"
| "encContents uid d own (Nested k its # cs) c =
     encItems uid k (Suc d) (snd own) its c @ encContents uid d own cs (c + countItems its)"

text \<open>
  The paragraph that \<open>appendBlock\<close> appends.
\<close>

definition paragraphBlock :: node where
  "paragraphBlock = \<lparr>kind = ElementNode, name = ''paragraph'', attrs = []\<rparr>"

text \<open>
  The number of items among the ancestors.
\<close>

definition liDepth :: "string list \<Rightarrow> nat" where
  "liDepth ancestors = length (filter (\<lambda>a. a = ''li'') ancestors)"

text \<open>
  The item id and the list type of a block.
\<close>

definition proj :: "node \<Rightarrow> attr_value option \<times> attr_value option" where
  "proj b = (getAttribute b ''listItemId'', getAttribute b ''listType'')"

text \<open>
  The blocks that govern the levels of a block \<open>b\<close>, read off the blocks before it in reverse
  order (\<open>ctx\<close>, nearest first): \<open>b\<close> itself, then the nearest block before it of a lower indent,
  and so on for at most \<open>l\<close> further levels.
\<close>

fun chainRev :: "node list \<Rightarrow> node \<Rightarrow> nat \<Rightarrow> node list" where
  "chainRev ctx b 0 = [b]"
| "chainRev ctx b (Suc l) =
     b # (case dropWhile (\<lambda>x. listIndentOf b \<le> listIndentOf x) ctx of
            [] \<Rightarrow> []
          | g # ctx' \<Rightarrow> chainRev ctx' g l)"

text \<open>
  The chain above indent \<open>d\<close> that the blocks before a position (\<open>ctx\<close>, nearest first)
  determine.
\<close>

definition ctxChain :: "node list \<Rightarrow> nat \<Rightarrow> chain" where
  "ctxChain ctx d =
     (case dropWhile (\<lambda>x. d \<le> listIndentOf x) ctx of
        [] \<Rightarrow> []
      | g # ctx' \<Rightarrow> map proj (chainRev ctx' g (d - 1)))"

text \<open>
  Every block of a labelled sequence that follows the blocks \<open>ctx\<close> has the chain it is
  labelled with.
\<close>

fun chainsOk :: "node list \<Rightarrow> (node \<times> chain) list \<Rightarrow> bool" where
  "chainsOk ctx [] = True"
| "chainsOk ctx (x # xs) =
     (map proj (chainRev ctx (fst x) (listIndentOf (fst x))) = snd x \<and> chainsOk (fst x # ctx) xs)"

text \<open>
  The items around a block in the markup, innermost first: each item by its number and the
  kind of the list it is an item of. The items of a markup are numbered as the conversion
  meets them, an item after the items nested in it (\<open>itemNumbers\<close> below lists the numbers).
\<close>

type_synonym markup_chain = "(nat \<times> list_name) list"

text \<open>
  The chain of every block of a markup, in document order, read off the markup alone. \<open>anc\<close>
  is the chain of the item that contains the list, \<open>c\<close> the number of items met so far. The
  block of an item and the further blocks of the same item have the same chain.
\<close>

fun chainsItems :: "list_name \<Rightarrow> markup_chain \<Rightarrow> item list \<Rightarrow> nat \<Rightarrow> markup_chain list"
  and chainsItem :: "list_name \<Rightarrow> markup_chain \<Rightarrow> item \<Rightarrow> nat \<Rightarrow> markup_chain list"
  and chainsContents :: "markup_chain \<Rightarrow> content list \<Rightarrow> nat \<Rightarrow> markup_chain list"
where
  "chainsItems k anc [] c = []"
| "chainsItems k anc (it # its) c =
     chainsItem k anc it c @ chainsItems k anc its (c + countItem it)"
| "chainsItem k anc (Item cs) c =
     (let own = (c + countContents cs, k) # anc in own # chainsContents own cs c)"
| "chainsContents own [] c = []"
| "chainsContents own (Block # cs) c = own # chainsContents own cs c"
| "chainsContents own (Nested k its # cs) c =
     chainsItems k own its c @ chainsContents own cs (c + countItems its)"

text \<open>
  The chains of the blocks of a list at the top level.
\<close>

definition markupChains :: "list_name \<Rightarrow> item list \<Rightarrow> markup_chain list" where
  "markupChains k its = chainsItems k [] its 0"

text \<open>
  The number of every item of a markup, each item once.
\<close>

fun itemNumbers :: "item list \<Rightarrow> nat \<Rightarrow> nat list"
  and itemNumber :: "item \<Rightarrow> nat \<Rightarrow> nat list"
  and contentNumbers :: "content list \<Rightarrow> nat \<Rightarrow> nat list"
where
  "itemNumbers [] c = []"
| "itemNumbers (it # its) c = itemNumber it c @ itemNumbers its (c + countItem it)"
| "itemNumber (Item cs) c = (c + countContents cs) # contentNumbers cs c"
| "contentNumbers [] c = []"
| "contentNumbers (Block # cs) c = contentNumbers cs c"
| "contentNumbers (Nested k its # cs) c =
     itemNumbers its c @ contentNumbers cs (c + countItems its)"

text \<open>
  Upcasting a list at the top level into an empty document, with the id counter at 0: the
  blocks of the flat encoding.
\<close>

definition upcastList ::
  "(node \<Rightarrow> string \<Rightarrow> bool) \<Rightarrow> (nat \<Rightarrow> string) \<Rightarrow> list_name \<Rightarrow> item list \<Rightarrow> document" where
  "upcastList chk uid k its =
     modelNodes (convertItems chk uid k [] its
                   \<lparr>uidCounter = 0, modelNodes = [], keptEmptyElements = []\<rparr>)"

text \<open>
  The nested structure around a block in the view: its list and item wrappers from the
  innermost outwards, each with its element name and what it was made from (the item id of an
  \<^verbatim>\<open>li\<close>, the list type of an \<^verbatim>\<open>ol\<close> or \<^verbatim>\<open>ul\<close>).
\<close>

definition listWrappers :: "block_view \<Rightarrow> (string \<times> attr_value option) list" where
  "listWrappers v =
     map (\<lambda>e. (vname e, vid e)) (takeWhile (\<lambda>e. vkind e = AttributeElement) (parents v))"

text \<open>
  The nested structure around a block in the markup, in the same form: for every item of its
  chain an \<^verbatim>\<open>li\<close> with the id of that item and the list element with its type.
\<close>

definition markupWrappers :: "(nat \<Rightarrow> string) \<Rightarrow> markup_chain \<Rightarrow> (string \<times> attr_value option) list" where
  "markupWrappers uid ch =
     concat (map (\<lambda>(n, k). [(''li'', Some (VStr (uid n))), (listNameOf k, Some (listTypeOf k))]) ch)"

text \<open>
  The item id and list type of a numbered item.
\<close>

definition lab :: "(nat \<Rightarrow> string) \<Rightarrow> nat \<times> list_name \<Rightarrow> attr_value option \<times> attr_value option" where
  "lab uid p = (Some (VStr (uid (fst p))), Some (listTypeOf (snd p)))"

text \<open>
  A labelled block is a list item block with an indent, and its chain has one entry for each
  level down to 0.
\<close>

definition wellFormed :: "node \<times> chain \<Rightarrow> bool" where
  "wellFormed x \<longleftrightarrow> isListItemBlock (fst x) \<and> hasAttribute (fst x) ''listIndent'' \<and>
     length (snd x) = Suc (listIndentOf (fst x))"

section \<open>Example documents\<close>

definition listAttributeNames :: "string list" where
  "listAttributeNames = [''listItemId'', ''listIndent'', ''listType'']"

definition listBlock :: "string \<Rightarrow> nat \<Rightarrow> string \<Rightarrow> node" where
  "listBlock itemId indent listType =
     \<lparr>kind = ElementNode, name = ''paragraph'',
      attrs = [(''listItemId'', VStr itemId), (''listIndent'', VNum indent),
               (''listType'', VStr listType)]\<rparr>"

definition plainBlock :: node where
  "plainBlock = \<lparr>kind = ElementNode, name = ''paragraph'', attrs = []\<rparr>"

definition withAttribute :: "string \<Rightarrow> attr_value \<Rightarrow> node \<Rightarrow> node" where
  "withAttribute k v n = n\<lparr>attrs := attrs n @ [(k, v)]\<rparr>"

definition exampleUid :: "nat \<Rightarrow> string" where
  "exampleUid k = CHR ''e'' # replicate k (CHR ''1'')"

definition exampleUpcastState :: upcast_state where
  "exampleUpcastState =
     \<lparr>uidCounter = 0, modelNodes = [plainBlock, listBlock ''n'' 1 ''bulleted''],
      keptEmptyElements = []\<rparr>"

definition elementsOnly :: "node \<Rightarrow> string \<Rightarrow> bool" where
  "elementsOnly n k = (kind n = ElementNode)"

definition editableRoot :: view_element where
  "editableRoot =
     \<lparr>vkind = EditableElement, vname = ''div'', vattrs = [], customProperties = [],
      vlevel = None, vid = None\<rparr>"

definition plainView :: block_view where
  "plainView =
     \<lparr>viewElement = createContainerElement ''p'' [], nodesBefore = [], parents = [editableRoot]\<rparr>"

definition listReversedStrategy :: strategy where
  "listReversedStrategy =
     \<lparr>scope = ListScope, attributeName = ''listReversed'',
      setAttributeOnDowncast =
        (\<lambda>v e. if v = VBool True then e\<lparr>vattrs := vattrs e @ [(''reversed'', ''reversed'')]\<rparr>
               else e),
      createElement = (\<lambda>n d. None), createWrapperElement = None, canWrapElement = None\<rparr>"

definition nestedDoc :: document where
  "nestedDoc =
     [withAttribute ''listReversed'' (VBool True) (listBlock ''a'' 0 ''numbered''),
      listBlock ''b'' 1 ''bulleted'']"

definition allConsumable :: consumable where
  "allConsumable = (\<lambda>p. Some True)"

definition plainViews :: "nat \<Rightarrow> block_view option" where
  "plainViews = (\<lambda>i. Some plainView)"

definition wrappedView :: "string \<Rightarrow> string \<Rightarrow> string \<Rightarrow> block_view" where
  "wrappedView nm itemId listType =
     \<lparr>viewElement = createContainerElement nm [], nodesBefore = [],
      parents = [createListItemElement 0 (Some (VStr itemId)),
                 createListElement 0 (Some (VStr listType)), editableRoot]\<rparr>"

definition exampleChecks :: "bool \<Rightarrow> view_element \<Rightarrow> (string \<times> attr_value) list option \<Rightarrow> bool" where
  "exampleChecks isItem e modelAttributes =
     (case modelAttributes of
        None \<Rightarrow> True
      | Some m \<Rightarrow> if isItem then vid e \<noteq> map_of m ''listItemId''
                  else vid e \<noteq> map_of m ''listType'')"

definition exampleEditing :: "(nat \<Rightarrow> string) \<Rightarrow> editing" where
  "exampleEditing viewName =
     \<lparr>toViewElement = (\<lambda>i. Some (wrappedView (viewName i) ''a'' ''bulleted'')),
      checkElement = (\<lambda>n e. False), checkAttributes = exampleChecks\<rparr>"

definition splitItemDoc :: document where
  "splitItemDoc =
     [listBlock ''a'' 0 ''bulleted'', listBlock ''b'' 1 ''bulleted'', listBlock ''a'' 0 ''bulleted'']"

definition splitItemViews :: "nat \<Rightarrow> string" where
  "splitItemViews i = (if i = 1 then ''span'' else ''p'')"

definition listTypeChange :: "nat \<Rightarrow> diff_entry" where
  "listTypeChange start =
     AttributeEntry start ''listType'' (Some (VStr ''bulleted'')) (Some (VStr ''numbered''))"

definition singleItemDoc :: document where
  "singleItemDoc = [listBlock ''a'' 0 ''numbered'']"

definition removalDoc :: document where
  "removalDoc =
     [listBlock ''a'' 0 ''bulleted'',
      \<lparr>kind = ElementNode, name = ''paragraph'',
       attrs = [(''listIndent'', VNum 0), (''listType'', VStr ''bulleted'')]\<rparr>,
      listBlock ''c'' 0 ''bulleted'']"

definition listItemIdRemoval :: "nat \<Rightarrow> diff_entry" where
  "listItemIdRemoval start = AttributeEntry start ''listItemId'' (Some (VStr ''b'')) None"

text \<open>
  Downcasting one block of a document to the data view: \<^verbatim>\<open>listItemDowncastConverter\<close> of the
  source in the data pipeline, without strategies, for the insertion of a block whose view is a
  paragraph directly in the root and whose attributes are all consumable. The result is the
  view around the block afterwards.
\<close>

definition downcastBlock :: "document \<Rightarrow> nat \<Rightarrow> block_view option" where
  "downcastBlock doc i =
     (case listItemDowncastConverter listAttributeNames [] True doc i ''listItemId''
             \<lparr>blockViews = plainViews, consumables = allConsumable\<rparr> of
        None \<Rightarrow> None
      | Some st \<Rightarrow> blockViews st i)"

text \<open>
  \<^verbatim>\<open><ol><li>A</li><li>B<ul><li>C</li></ul><p>D</p></li></ol>\<close>: two items, the second with a
  nested list between its two blocks.
\<close>

definition exampleMarkup :: "item list" where
  "exampleMarkup = [Item [], Item [Nested Ul [Item []], Block]]"

text \<open>
  A list in which the item \<open>a\<close> continues after the nested item \<open>b\<close> and is followed by the
  item \<open>c\<close>, after a change of the list type of \<open>b\<close>; every view agrees with the model, the
  wrappers of \<open>b\<close> apart.
\<close>

definition staleDoc :: document where
  "staleDoc =
     [listBlock ''a'' 0 ''bulleted'', listBlock ''b'' 1 ''numbered'',
      listBlock ''a'' 0 ''bulleted'', listBlock ''c'' 0 ''bulleted'']"

text \<open>
  The view of a block of a nested item: its own wrappers inside those of the outer item.
\<close>

definition nestedView :: "string \<Rightarrow> string \<Rightarrow> string \<Rightarrow> string \<Rightarrow> block_view" where
  "nestedView nm itemId listType outerId =
     \<lparr>viewElement = createContainerElement nm [], nodesBefore = [],
      parents = [createListItemElement 1 (Some (VStr itemId)),
                 createListElement 1 (Some (VStr listType)),
                 createListItemElement 0 (Some (VStr outerId)),
                 createListElement 0 (Some (VStr ''bulleted'')), editableRoot]\<rparr>"

definition staleEditing :: editing where
  "staleEditing =
     \<lparr>toViewElement =
        (\<lambda>i. if i = 1 then Some (nestedView ''span'' ''b'' ''bulleted'' ''a'')
             else if i = 3 then Some (wrappedView ''span'' ''c'' ''bulleted'')
             else Some (wrappedView ''p'' ''a'' ''bulleted'')),
      checkElement = (\<lambda>n e. False), checkAttributes = exampleChecks\<rparr>"



text \<open>
  A marker strategy as the to-do list has it: a checkbox before the block and a label for it.
  Here the block cannot be wrapped, so the label wraps the checkbox alone.
\<close>

definition checkboxStrategy :: strategy where
  "checkboxStrategy =
     \<lparr>scope = ItemMarkerScope, attributeName = ''listType'',
      setAttributeOnDowncast = (\<lambda>v e. e),
      createElement = (\<lambda>n dataPipeline. Some (createContainerElement ''input'' [])),
      createWrapperElement =
        Some (\<lambda>n dataPipeline.
                \<lparr>vkind = AttributeElement, vname = ''label'', vattrs = [], customProperties = [],
                 vlevel = None, vid = None\<rparr>),
      canWrapElement = Some (\<lambda>n. False)\<rparr>"

section \<open>Properties\<close>

lemma bogusAttributeKeys_iff:
  "bogusAttributeKeys keys attributeNames =
     (\<forall>k \<in> set keys. \<not> startsWith k ''selection:'' \<longrightarrow> k \<in> set attributeNames)"
  by (induction keys) auto

lemma shouldUseBogusParagraph_iff:
  "shouldUseBogusParagraph item attributeNames blocks =
     (isListItemBlock item \<and>
      (\<forall>k \<in> set (getAttributeKeys item).
         \<not> startsWith k ''selection:'' \<longrightarrow> k \<in> set attributeNames) \<and>
      length blocks < 2)"
  by (auto simp add: shouldUseBogusParagraph_def bogusAttributeKeys_iff)

lemma enumerate_Cons_simp: "enumerate k (x # xs) = (k, x) # enumerate (Suc k) xs"
  by simp

lemmas walker_eval =
  iterateSiblingListBlocks_def getListItemBlocks_def getAllListItemBlocks_def
  isListItemBlock_def hasAttribute_def getAttribute_def getAttributeKeys_def listIndentOf_def
  listBlock_def plainBlock_def withAttribute_def listAttributeNames_def startsWith_def

subsection \<open>C1: the bogus paragraph\<close>

text \<open>
  C1. A block renders as a bogus paragraph exactly when it is a list-item block, every
  attribute key on it that does not start with \<^verbatim>\<open>selection:\<close> is one of the recognized
  list attribute names, and its item has fewer than two blocks. When this holds the creator
  returns a container \<^verbatim>\<open>span\<close> of class \<^verbatim>\<open>ck-list-bogus-paragraph\<close> in the editing
  pipeline and a container \<^verbatim>\<open>p\<close> with the custom property
  \<^verbatim>\<open>dataPipeline:transparentRendering\<close> in the data pipeline; otherwise it returns no
  element.
\<close>

theorem bogusParagraphCreator_spec:
  "bogusParagraphCreator attributeNames dataPipeline doc i =
     (if isListItemBlock (doc ! i) \<and>
         (\<forall>k \<in> set (getAttributeKeys (doc ! i)).
            \<not> startsWith k ''selection:'' \<longrightarrow> k \<in> set attributeNames) \<and>
         length (getAllListItemBlocks doc i) < 2
      then Some (if dataPipeline
                 then \<lparr>vkind = ContainerElement, vname = ''p'', vattrs = [],
                       customProperties = [(''dataPipeline:transparentRendering'', True)],
                       vlevel = None, vid = None\<rparr>
                 else \<lparr>vkind = ContainerElement, vname = ''span'',
                       vattrs = [(''class'', ''ck-list-bogus-paragraph'')],
                       customProperties = [], vlevel = None, vid = None\<rparr>)
      else None)"
  unfolding bogusParagraphCreator_def shouldUseBogusParagraph_iff
  by (simp add: createContainerElement_def setCustomProperty_def)

theorem bogusParagraphCreator_spec_witness:
  "bogusParagraphCreator listAttributeNames False
     [withAttribute ''selection:bold'' (VBool True) (listBlock ''a'' 0 ''bulleted'')] 0 =
     Some \<lparr>vkind = ContainerElement, vname = ''span'',
           vattrs = [(''class'', ''ck-list-bogus-paragraph'')], customProperties = [],
           vlevel = None, vid = None\<rparr> \<and>
   bogusParagraphCreator listAttributeNames True
     [withAttribute ''selection:bold'' (VBool True) (listBlock ''a'' 0 ''bulleted'')] 0 =
     Some \<lparr>vkind = ContainerElement, vname = ''p'', vattrs = [],
           customProperties = [(''dataPipeline:transparentRendering'', True)],
                       vlevel = None, vid = None\<rparr> \<and>
   bogusParagraphCreator listAttributeNames False
     [withAttribute ''alignment'' (VStr ''right'') (listBlock ''a'' 0 ''bulleted'')] 0 = None \<and>
   bogusParagraphCreator listAttributeNames False
     [listBlock ''a'' 0 ''bulleted'', listBlock ''a'' 0 ''bulleted''] 0 = None \<and>
   bogusParagraphCreator listAttributeNames False [plainBlock] 0 = None"
  using
    bogusParagraphCreator_spec [of listAttributeNames False
      "[withAttribute ''selection:bold'' (VBool True) (listBlock ''a'' 0 ''bulleted'')]" 0]
    bogusParagraphCreator_spec [of listAttributeNames True
      "[withAttribute ''selection:bold'' (VBool True) (listBlock ''a'' 0 ''bulleted'')]" 0]
    bogusParagraphCreator_spec [of listAttributeNames False
      "[withAttribute ''alignment'' (VStr ''right'') (listBlock ''a'' 0 ''bulleted'')]" 0]
    bogusParagraphCreator_spec [of listAttributeNames False
      "[listBlock ''a'' 0 ''bulleted'', listBlock ''a'' 0 ''bulleted'']" 0]
    bogusParagraphCreator_spec [of listAttributeNames False "[plainBlock]" 0]
  by (simp add: walker_eval)

subsection \<open>Upcast: helper lemmas\<close>

lemma setListAttributes_length: "length (setListAttributes a items m) = length m"
  by (induction items arbitrary: m) auto

lemma setListAttributes_nth:
  "distinct items \<Longrightarrow> \<forall>i \<in> set items. i < length m \<Longrightarrow> j < length m \<Longrightarrow>
   setListAttributes a items m ! j =
     (if j \<in> set items \<and> \<not> hasAttribute (m ! j) ''listItemId''
      then setAttributes a (m ! j) else m ! j)"
proof (induction items arbitrary: m)
  case Nil
  then show ?case by simp
next
  case (Cons item items)
  let ?m = "(if \<not> hasAttribute (m ! item) ''listItemId''
        then m[item := setAttributes a (m ! item)] else m)"
  have len: "length ?m = length m" by simp
  have "setListAttributes a (item # items) m ! j = setListAttributes a items ?m ! j" by simp
  also have "\<dots> = (if j \<in> set items \<and> \<not> hasAttribute (?m ! j) ''listItemId''
      then setAttributes a (?m ! j) else ?m ! j)"
    using Cons.IH[of ?m] Cons.prems len by auto
  also have "\<dots> = (if j \<in> set (item # items) \<and> \<not> hasAttribute (m ! j) ''listItemId''
      then setAttributes a (m ! j) else m ! j)"
    using Cons.prems by (auto simp: nth_list_update)
  finally show ?case .
qed

lemma upcastItems_distinct: "distinct (upcastItems chk m r)"
  by (simp add: upcastItems_def)

lemma upcastItems_bound: "snd r \<le> length m \<Longrightarrow> i \<in> set (upcastItems chk m r) \<Longrightarrow> i < length m"
  by (auto simp: upcastItems_def)

lemma getAttribute_setAttribute:
  "map_of (setAttribute k v as) k' = (if k' = k then Some v else map_of as k')"
  by (induction as) auto

lemma getAttribute_setAttributes3:
  "getAttribute (setAttributes [(''listItemId'', a), (''listIndent'', b), (''listType'', c)] n) k =
     (if k = ''listItemId'' then Some a else if k = ''listIndent'' then Some b
      else if k = ''listType'' then Some c else getAttribute n k)"
  by (simp add: getAttribute_def setAttributes_def getAttribute_setAttribute)


lemma setAttributes_kind: "kind (setAttributes a n) = kind n"
  by (simp add: setAttributes_def)

lemma setAttributes_name: "name (setAttributes a n) = name n"
  by (simp add: setAttributes_def)

lemma listItemUpcastConverter_unfold:
  assumes "upcastItems checkAttribute (modelNodes st) (s, e) \<noteq> []"
  shows "listItemUpcastConverter checkAttribute uid viewItem (Some (s, e)) st =
     (let items = upcastItems checkAttribute (modelNodes st) (s, e);
          listItemId = uid (uidCounter st);
          attributes = [(''listItemId'', VStr listItemId), (''listIndent'', VNum (getIndent viewItem)),
                        (''listType'', upcastListType viewItem (modelNodes st ! (items ! 0)))];
          m = setListAttributes attributes items (modelNodes st)
      in st\<lparr>uidCounter := Suc (uidCounter st), modelNodes := m,
             keptEmptyElements :=
               (if length items > 1 \<and>
                   getAttribute (m ! (items ! 1)) ''listItemId'' \<noteq> Some (VStr listItemId)
                then keptEmptyElements st @ [items ! 0] else keptEmptyElements st)\<rparr>)"
  using assms by (simp add: listItemUpcastConverter_def Let_def)

subsection \<open>C4: the attributes set by the list item upcast converter\<close>

text \<open>
  C4. Run on a model range whose items (the nodes of the range that the schema allows
  \<^verbatim>\<open>listItemId\<close> on) are not empty, the converter takes one id from the generator and sets,
  on exactly the items that carry no \<^verbatim>\<open>listItemId\<close> yet, that id, the \<^verbatim>\<open>listIndent\<close> read
  from the nesting of the view item, and the \<^verbatim>\<open>listType\<close>: the first item's own
  \<^verbatim>\<open>listType\<close> when it has a (truthy) one, otherwise \<^verbatim>\<open>numbered\<close> under an \<^verbatim>\<open>ol\<close>
  parent and \<^verbatim>\<open>bulleted\<close> under any other. Every other attribute and every other node is
  left as it was. With no model range or no item nothing changes and no id is taken. The id
  is fresh: when the generator's ids are pairwise different, no later call returns it again.
\<close>

theorem listItemUpcastConverter_assigns:
  assumes range: "e \<le> length (modelNodes st)"
  shows
    "listItemUpcastConverter checkAttribute uid viewItem None st = st \<and>
     (upcastItems checkAttribute (modelNodes st) (s, e) = [] \<longrightarrow>
        listItemUpcastConverter checkAttribute uid viewItem (Some (s, e)) st = st) \<and>
     (upcastItems checkAttribute (modelNodes st) (s, e) \<noteq> [] \<longrightarrow>
        uidCounter (listItemUpcastConverter checkAttribute uid viewItem (Some (s, e)) st) =
          Suc (uidCounter st) \<and>
        length (modelNodes (listItemUpcastConverter checkAttribute uid viewItem (Some (s, e)) st)) =
          length (modelNodes st) \<and>
        (\<forall>i < length (modelNodes st).
           if i \<in> set (upcastItems checkAttribute (modelNodes st) (s, e)) \<and>
              \<not> hasAttribute (modelNodes st ! i) ''listItemId''
           then kind (modelNodes (listItemUpcastConverter checkAttribute uid viewItem (Some (s, e)) st) ! i) =
                  kind (modelNodes st ! i) \<and>
                name (modelNodes (listItemUpcastConverter checkAttribute uid viewItem (Some (s, e)) st) ! i) =
                  name (modelNodes st ! i) \<and>
                (\<forall>k. getAttribute
                       (modelNodes (listItemUpcastConverter checkAttribute uid viewItem (Some (s, e)) st) ! i) k =
                     (if k = ''listItemId'' then Some (VStr (uid (uidCounter st)))
                      else if k = ''listIndent'' then Some (VNum (getIndent viewItem))
                      else if k = ''listType''
                      then (if isTruthy (getAttribute
                                  (modelNodes st ! (upcastItems checkAttribute (modelNodes st) (s, e) ! 0))
                                  ''listType'')
                            then getAttribute
                                   (modelNodes st ! (upcastItems checkAttribute (modelNodes st) (s, e) ! 0))
                                   ''listType''
                            else if parentIs viewItem ''ol'' then Some (VStr ''numbered'')
                            else Some (VStr ''bulleted''))
                      else getAttribute (modelNodes st ! i) k))
           else modelNodes (listItemUpcastConverter checkAttribute uid viewItem (Some (s, e)) st) ! i =
                  modelNodes st ! i)) \<and>
     (inj uid \<longrightarrow> upcastItems checkAttribute (modelNodes st) (s, e) \<noteq> [] \<longrightarrow>
        (\<forall>c \<ge> uidCounter (listItemUpcastConverter checkAttribute uid viewItem (Some (s, e)) st).
           uid c \<noteq> uid (uidCounter st)))"
proof -
  let ?items = "upcastItems checkAttribute (modelNodes st) (s, e)"
  let ?st' = "listItemUpcastConverter checkAttribute uid viewItem (Some (s, e)) st"
  have none: "listItemUpcastConverter checkAttribute uid viewItem None st = st"
    by (simp add: listItemUpcastConverter_def)
  have empty: "?items = [] \<longrightarrow> ?st' = st"
    by (simp add: listItemUpcastConverter_def)
  have main: "?items \<noteq> [] \<longrightarrow>
        uidCounter ?st' = Suc (uidCounter st) \<and>
        length (modelNodes ?st') = length (modelNodes st) \<and>
        (\<forall>i < length (modelNodes st).
           if i \<in> set ?items \<and> \<not> hasAttribute (modelNodes st ! i) ''listItemId''
           then kind (modelNodes ?st' ! i) = kind (modelNodes st ! i) \<and>
                name (modelNodes ?st' ! i) = name (modelNodes st ! i) \<and>
                (\<forall>k. getAttribute (modelNodes ?st' ! i) k =
                     (if k = ''listItemId'' then Some (VStr (uid (uidCounter st)))
                      else if k = ''listIndent'' then Some (VNum (getIndent viewItem))
                      else if k = ''listType''
                      then (if isTruthy (getAttribute (modelNodes st ! (?items ! 0)) ''listType'')
                            then getAttribute (modelNodes st ! (?items ! 0)) ''listType''
                            else if parentIs viewItem ''ol'' then Some (VStr ''numbered'')
                            else Some (VStr ''bulleted''))
                      else getAttribute (modelNodes st ! i) k))
           else modelNodes ?st' ! i = modelNodes st ! i)"
  proof
    assume ne: "?items \<noteq> []"
    let ?T = "upcastListType viewItem (modelNodes st ! (?items ! 0))"
    let ?attributes = "[(''listItemId'', VStr (uid (uidCounter st))),
                        (''listIndent'', VNum (getIndent viewItem)), (''listType'', ?T)]"
    let ?m = "setListAttributes ?attributes ?items (modelNodes st)"
    have st': "?st' = st\<lparr>uidCounter := Suc (uidCounter st), modelNodes := ?m,
             keptEmptyElements :=
               (if length ?items > 1 \<and>
                   getAttribute (?m ! (?items ! 1)) ''listItemId'' \<noteq> Some (VStr (uid (uidCounter st)))
                then keptEmptyElements st @ [?items ! 0] else keptEmptyElements st)\<rparr>"
      using listItemUpcastConverter_unfold[OF ne] by (simp add: Let_def)
    have nodes: "modelNodes ?st' = ?m" by (subst st') simp
    have cnt: "uidCounter ?st' = Suc (uidCounter st)" by (subst st') simp
    have len: "length (modelNodes ?st') = length (modelNodes st)"
      by (simp add: nodes setListAttributes_length)
    have bound: "\<forall>i \<in> set ?items. i < length (modelNodes st)"
      using upcastItems_bound[of "(s, e)" "modelNodes st"] range by auto
    have T: "Some ?T = (if isTruthy (getAttribute (modelNodes st ! (?items ! 0)) ''listType'')
                            then getAttribute (modelNodes st ! (?items ! 0)) ''listType''
                            else if parentIs viewItem ''ol'' then Some (VStr ''numbered'')
                            else Some (VStr ''bulleted''))"
      by (auto simp: upcastListType_def Let_def isTruthy_def split: option.splits)
    have each: "\<And>i. i < length (modelNodes st) \<Longrightarrow> ?m ! i =
        (if i \<in> set ?items \<and> \<not> hasAttribute (modelNodes st ! i) ''listItemId''
         then setAttributes ?attributes (modelNodes st ! i) else modelNodes st ! i)"
      using setListAttributes_nth[OF upcastItems_distinct bound] by blast
    have all: "\<forall>i < length (modelNodes st).
           if i \<in> set ?items \<and> \<not> hasAttribute (modelNodes st ! i) ''listItemId''
           then kind (modelNodes ?st' ! i) = kind (modelNodes st ! i) \<and>
                name (modelNodes ?st' ! i) = name (modelNodes st ! i) \<and>
                (\<forall>k. getAttribute (modelNodes ?st' ! i) k =
                     (if k = ''listItemId'' then Some (VStr (uid (uidCounter st)))
                      else if k = ''listIndent'' then Some (VNum (getIndent viewItem))
                      else if k = ''listType''
                      then (if isTruthy (getAttribute (modelNodes st ! (?items ! 0)) ''listType'')
                            then getAttribute (modelNodes st ! (?items ! 0)) ''listType''
                            else if parentIs viewItem ''ol'' then Some (VStr ''numbered'')
                            else Some (VStr ''bulleted''))
                      else getAttribute (modelNodes st ! i) k))
           else modelNodes ?st' ! i = modelNodes st ! i"
    proof (intro allI impI)
      fix i assume i: "i < length (modelNodes st)"
      show "if i \<in> set ?items \<and> \<not> hasAttribute (modelNodes st ! i) ''listItemId''
           then kind (modelNodes ?st' ! i) = kind (modelNodes st ! i) \<and>
                name (modelNodes ?st' ! i) = name (modelNodes st ! i) \<and>
                (\<forall>k. getAttribute (modelNodes ?st' ! i) k =
                     (if k = ''listItemId'' then Some (VStr (uid (uidCounter st)))
                      else if k = ''listIndent'' then Some (VNum (getIndent viewItem))
                      else if k = ''listType''
                      then (if isTruthy (getAttribute (modelNodes st ! (?items ! 0)) ''listType'')
                            then getAttribute (modelNodes st ! (?items ! 0)) ''listType''
                            else if parentIs viewItem ''ol'' then Some (VStr ''numbered'')
                            else Some (VStr ''bulleted''))
                      else getAttribute (modelNodes st ! i) k))
           else modelNodes ?st' ! i = modelNodes st ! i"
        unfolding nodes using each[OF i] T
        by (simp add: getAttribute_setAttributes3 setAttributes_kind setAttributes_name)
    qed
    from cnt len all
    show "uidCounter ?st' = Suc (uidCounter st) \<and>
        length (modelNodes ?st') = length (modelNodes st) \<and>
        (\<forall>i < length (modelNodes st).
           if i \<in> set ?items \<and> \<not> hasAttribute (modelNodes st ! i) ''listItemId''
           then kind (modelNodes ?st' ! i) = kind (modelNodes st ! i) \<and>
                name (modelNodes ?st' ! i) = name (modelNodes st ! i) \<and>
                (\<forall>k. getAttribute (modelNodes ?st' ! i) k =
                     (if k = ''listItemId'' then Some (VStr (uid (uidCounter st)))
                      else if k = ''listIndent'' then Some (VNum (getIndent viewItem))
                      else if k = ''listType''
                      then (if isTruthy (getAttribute (modelNodes st ! (?items ! 0)) ''listType'')
                            then getAttribute (modelNodes st ! (?items ! 0)) ''listType''
                            else if parentIs viewItem ''ol'' then Some (VStr ''numbered'')
                            else Some (VStr ''bulleted''))
                      else getAttribute (modelNodes st ! i) k))
           else modelNodes ?st' ! i = modelNodes st ! i)"
      by blast
  qed
  have fresh: "inj uid \<longrightarrow> ?items \<noteq> [] \<longrightarrow>
        (\<forall>c \<ge> uidCounter ?st'. uid c \<noteq> uid (uidCounter st))"
  proof (intro impI allI)
    fix c assume i: "inj uid" and ne: "?items \<noteq> []" and c: "uidCounter ?st' \<le> c"
    from main ne have "uidCounter ?st' = Suc (uidCounter st)" by blast
    with c have "c \<noteq> uidCounter st" by simp
    with i show "uid c \<noteq> uid (uidCounter st)" by (simp add: inj_eq)
  qed
  from none empty main fresh show ?thesis by blast
qed


subsection \<open>C7: keeping the first block of an item that holds only a nested list\<close>

text \<open>
  C7. After the attributes are set, the converter hands the first item to
  \<^verbatim>\<open>keepEmptyElement\<close> exactly when there is more than one item and the second item's
  \<^verbatim>\<open>listItemId\<close> is not the fresh id. At that point the second item carries the id it had
  before the run (it starts a nested list) or, when it had none, the fresh id (it continues the
  item); in the latter case nothing is kept.
\<close>

theorem listItemUpcastConverter_keepEmptyElement:
  assumes range: "e \<le> length (modelNodes st)"
    and ne: "upcastItems checkAttribute (modelNodes st) (s, e) \<noteq> []"
  shows
    "keptEmptyElements (listItemUpcastConverter checkAttribute uid viewItem (Some (s, e)) st) =
       (if 1 < length (upcastItems checkAttribute (modelNodes st) (s, e)) \<and>
           getAttribute
             (modelNodes (listItemUpcastConverter checkAttribute uid viewItem (Some (s, e)) st) !
                (upcastItems checkAttribute (modelNodes st) (s, e) ! 1)) ''listItemId'' \<noteq>
             Some (VStr (uid (uidCounter st)))
        then keptEmptyElements st @ [upcastItems checkAttribute (modelNodes st) (s, e) ! 0]
        else keptEmptyElements st) \<and>
     (1 < length (upcastItems checkAttribute (modelNodes st) (s, e)) \<longrightarrow>
        getAttribute
          (modelNodes (listItemUpcastConverter checkAttribute uid viewItem (Some (s, e)) st) !
             (upcastItems checkAttribute (modelNodes st) (s, e) ! 1)) ''listItemId'' =
          (if hasAttribute (modelNodes st ! (upcastItems checkAttribute (modelNodes st) (s, e) ! 1))
                ''listItemId''
           then getAttribute (modelNodes st ! (upcastItems checkAttribute (modelNodes st) (s, e) ! 1))
                  ''listItemId''
           else Some (VStr (uid (uidCounter st)))))"
proof -
  let ?items = "upcastItems checkAttribute (modelNodes st) (s, e)"
  let ?st' = "listItemUpcastConverter checkAttribute uid viewItem (Some (s, e)) st"
  let ?attributes = "[(''listItemId'', VStr (uid (uidCounter st))),
                      (''listIndent'', VNum (getIndent viewItem)),
                      (''listType'', upcastListType viewItem (modelNodes st ! (?items ! 0)))]"
  let ?m = "setListAttributes ?attributes ?items (modelNodes st)"
  have st': "?st' = st\<lparr>uidCounter := Suc (uidCounter st), modelNodes := ?m,
             keptEmptyElements :=
               (if length ?items > 1 \<and>
                   getAttribute (?m ! (?items ! 1)) ''listItemId'' \<noteq> Some (VStr (uid (uidCounter st)))
                then keptEmptyElements st @ [?items ! 0] else keptEmptyElements st)\<rparr>"
    using listItemUpcastConverter_unfold[OF ne] by (simp add: Let_def)
  have nodes: "modelNodes ?st' = ?m" by (subst st') simp
  have kept: "keptEmptyElements ?st' =
       (if 1 < length ?items \<and>
           getAttribute (modelNodes ?st' ! (?items ! 1)) ''listItemId'' \<noteq> Some (VStr (uid (uidCounter st)))
        then keptEmptyElements st @ [?items ! 0] else keptEmptyElements st)"
    unfolding nodes by (subst st') simp
  have bound: "\<forall>i \<in> set ?items. i < length (modelNodes st)"
    using upcastItems_bound[of "(s, e)" "modelNodes st"] range by auto
  have second: "1 < length ?items \<longrightarrow>
        getAttribute (modelNodes ?st' ! (?items ! 1)) ''listItemId'' =
          (if hasAttribute (modelNodes st ! (?items ! 1)) ''listItemId''
           then getAttribute (modelNodes st ! (?items ! 1)) ''listItemId''
           else Some (VStr (uid (uidCounter st))))"
  proof
    assume l: "1 < length ?items"
    then have mem: "?items ! 1 \<in> set ?items" by simp
    with bound have lt: "?items ! 1 < length (modelNodes st)" by blast
    show "getAttribute (modelNodes ?st' ! (?items ! 1)) ''listItemId'' =
          (if hasAttribute (modelNodes st ! (?items ! 1)) ''listItemId''
           then getAttribute (modelNodes st ! (?items ! 1)) ''listItemId''
           else Some (VStr (uid (uidCounter st))))"
      unfolding nodes
      using setListAttributes_nth[OF upcastItems_distinct bound lt, where a = ?attributes] mem
      by (simp add: getAttribute_setAttributes3)
  qed
  from kept second show ?thesis by blast
qed


lemmas upcast_eval =
  exampleUpcastState_def elementsOnly_def exampleUid_def upcastItems_def upcastListType_def
  listItemUpcastConverter_def parentIs_def getIndent_def setAttributes_def isTruthy_def

lemma upt_0_2: "[0..<2] = [0, Suc 0]"
  by (simp add: upt_rec)

theorem listItemUpcastConverter_assigns_witness:
  "(2::nat) \<le> length (modelNodes exampleUpcastState) \<and>
   upcastItems elementsOnly (modelNodes exampleUpcastState) (0, 2) = [0, 1] \<and>
   uidCounter (listItemUpcastConverter elementsOnly exampleUid \<lparr>viewAncestors = [''ol'']\<rparr>
      (Some (0, 2)) exampleUpcastState) = 1 \<and>
   getAttribute (modelNodes (listItemUpcastConverter elementsOnly exampleUid
      \<lparr>viewAncestors = [''ol'']\<rparr> (Some (0, 2)) exampleUpcastState) ! 0) ''listItemId'' =
     Some (VStr ''e'') \<and>
   getAttribute (modelNodes (listItemUpcastConverter elementsOnly exampleUid
      \<lparr>viewAncestors = [''ol'']\<rparr> (Some (0, 2)) exampleUpcastState) ! 0) ''listIndent'' =
     Some (VNum 0) \<and>
   getAttribute (modelNodes (listItemUpcastConverter elementsOnly exampleUid
      \<lparr>viewAncestors = [''ol'']\<rparr> (Some (0, 2)) exampleUpcastState) ! 0) ''listType'' =
     Some (VStr ''numbered'') \<and>
   modelNodes (listItemUpcastConverter elementsOnly exampleUid
      \<lparr>viewAncestors = [''ol'']\<rparr> (Some (0, 2)) exampleUpcastState) ! 1 =
     listBlock ''n'' 1 ''bulleted''"
  using listItemUpcastConverter_assigns [where e = 2 and st = exampleUpcastState
    and checkAttribute = elementsOnly and s = 0 and uid = exampleUid
    and viewItem = "\<lparr>viewAncestors = [''ol'']\<rparr>"]
  by (simp add: upcast_eval walker_eval upt_0_2 Let_def)

theorem listItemUpcastConverter_keepEmptyElement_witness:
  "(2::nat) \<le> length (modelNodes exampleUpcastState) \<and>
   upcastItems elementsOnly (modelNodes exampleUpcastState) (0, 2) = [0, 1] \<and>
   keptEmptyElements (listItemUpcastConverter elementsOnly exampleUid \<lparr>viewAncestors = [''ol'']\<rparr>
      (Some (0, 2)) exampleUpcastState) = [0] \<and>
   keptEmptyElements (listItemUpcastConverter elementsOnly exampleUid \<lparr>viewAncestors = [''ol'']\<rparr>
      (Some (0, 2)) (exampleUpcastState\<lparr>modelNodes := [plainBlock, plainBlock]\<rparr>)) = []"
  using listItemUpcastConverter_keepEmptyElement [where e = 2 and st = exampleUpcastState
    and checkAttribute = elementsOnly and s = 0 and uid = exampleUid
    and viewItem = "\<lparr>viewAncestors = [''ol'']\<rparr>"]
   listItemUpcastConverter_keepEmptyElement [where e = 2
    and st = "exampleUpcastState\<lparr>modelNodes := [plainBlock, plainBlock]\<rparr>"
    and checkAttribute = elementsOnly and s = 0 and uid = exampleUid
    and viewItem = "\<lparr>viewAncestors = [''ol'']\<rparr>"]
  by (simp add: upcast_eval walker_eval upt_0_2 Let_def)

subsection \<open>C9: cleaning a list view\<close>

text \<open>
  C9, as stated, fails: a list view whose name is no longer consumable is returned as it is,
  with its stray text node.
\<close>

theorem listUpcastCleanList_keeps_when_consumed:
  "listUpcastCleanList (Some False)
     (viewElementNamed ''ul'' [ViewText '' '', viewElementNamed ''li'' [ViewText ''A'']]) =
   viewElementNamed ''ul'' [ViewText '' '', viewElementNamed ''li'' [ViewText ''A'']] \<and>
   \<not> viewNodeIs isListItemView (ViewText '' '') \<and> \<not> viewNodeIs isListView (ViewText '' '')"
  by (simp add: listUpcastCleanList_def viewNodeIs_def)

text \<open>
  C9, amended. When the name of the list view element is still consumable, the converter
  removes every direct child that is neither a list-item view nor a list view and leaves the
  others in place, in their order; when it is not, the children are left as they are. The
  converter has no failing branch.
\<close>

theorem listUpcastCleanList_spec:
  "listUpcastCleanList testName (ViewElement e children) =
     ViewElement e
       (if testName = Some True
        then filter (\<lambda>child. viewNodeIs isListItemView child \<or> viewNodeIs isListView child) children
        else children)"
  by (simp add: listUpcastCleanList_def)

theorem listUpcastCleanList_spec_witness:
  "listUpcastCleanList (Some True)
     (viewElementNamed ''ul''
        [ViewText '' '', viewElementNamed ''li'' [ViewText ''A''], viewElementNamed ''p'' [],
         viewElementNamed ''ol'' []]) =
   viewElementNamed ''ul'' [viewElementNamed ''li'' [ViewText ''A''], viewElementNamed ''ol'' []]"
  using listUpcastCleanList_spec [of "Some True"
     "\<lparr>vkind = PlainElement, vname = ''ul'', vattrs = [], customProperties = [],
       vlevel = None, vid = None\<rparr>"
     "[ViewText '' '', viewElementNamed ''li'' [ViewText ''A''], viewElementNamed ''p'' [],
         viewElementNamed ''ol'' []]"]
  by (simp add: viewElementNamed_def viewNodeIs_def isListItemView_def isListView_def)

lemma applyStrategies_eq:
  "applyStrategies strategies n (a, b) =
     (strategyAttributes ItemScope strategies n a, strategyAttributes ListScope strategies n b)"
  by (induction strategies arbitrary: a b)
     (auto simp: strategyAttributes_def hasAttribute_def split: option.splits)

lemma levelWrappers_eq:
  "levelWrappers strategies indent n =
     (strategyAttributes ItemScope strategies n
        (createListItemElement indent (getAttribute n ''listItemId'')),
      strategyAttributes ListScope strategies n
        (createListElement indent (getAttribute n ''listType'')))"
  by (simp add: levelWrappers_def applyStrategies_eq)

lemma wrapLevels_parents:
  "rangeParents (wrapLevels doc strategies k c vr) =
     rangeParents vr @ concat (map (wrapperPair doc strategies) (governingBlocks doc k c))"
  by (induction k arbitrary: c vr)
     (auto simp: wrap_def levelWrappers_eq wrapperPair_def Let_def split: option.splits)

lemma wrapLevels_rest:
  "rangeElement (wrapLevels doc strategies k c vr) = rangeElement vr \<and>
   rangeNodesBefore (wrapLevels doc strategies k c vr) = rangeNodesBefore vr \<and>
   outerNodesBefore (wrapLevels doc strategies k c vr) = outerNodesBefore vr \<and>
   outerParents (wrapLevels doc strategies k c vr) = outerParents vr"
  by (induction k arbitrary: c vr) (auto simp: wrap_def Let_def split: option.splits)

lemma governingBlocks_length: "length (governingBlocks doc k c) \<le> Suc k"
  by (induction k arbitrary: c) (auto split: option.splits)

lemma governingBlocks_nonempty: "governingBlocks doc k c \<noteq> []"
  by (cases k) auto

lemma governingBlocks_levels:
  "j < length (governingBlocks doc k c) \<Longrightarrow> fst (governingBlocks doc k c ! j) = k - j"
proof (induction k arbitrary: c j)
  case 0
  then show ?case by simp
next
  case (Suc k)
  then show ?case
    by (cases j) (auto split: option.splits)
qed

lemma governingBlocks_head: "governingBlocks doc k c ! 0 = (k, c)"
  by (cases k) auto

lemma governingBlocks_step:
  "Suc j < length (governingBlocks doc k c) \<Longrightarrow>
   firstLowerIndent doc (snd (governingBlocks doc k c ! j)) = Some (snd (governingBlocks doc k c ! Suc j))"
proof (induction k arbitrary: c j)
  case 0
  then show ?case by simp
next
  case (Suc k)
  show ?case
  proof (cases "firstLowerIndent doc c")
    case None
    with Suc.prems show ?thesis by simp
  next
    case (Some l)
    show ?thesis
    proof (cases j)
      case 0
      then show ?thesis using Some by (simp add: governingBlocks_head)
    next
      case (Suc j')
      with Suc.prems Some have "Suc j' < length (governingBlocks doc k l)" by simp
      from Suc.IH[OF this] show ?thesis using Some Suc by simp
    qed
  qed
qed

lemma governingBlocks_stop:
  "length (governingBlocks doc k c) = Suc k \<or>
   firstLowerIndent doc (snd (last (governingBlocks doc k c))) = None"
proof (induction k arbitrary: c)
  case 0
  then show ?case by simp
next
  case (Suc k)
  show ?case
  proof (cases "firstLowerIndent doc c")
    case None
    then show ?thesis by simp
  next
    case (Some l)
    with Suc.IH[of l] show ?thesis by (auto simp: governingBlocks_nonempty)
  qed
qed

lemma drop_enumerate0: "drop i (enumerate 0 xs) = enumerate i (drop i xs)"
  by (cases "i \<le> length xs") (simp_all add: enumerate_eq_zip drop_zip)

lemma take_enumerate0: "take i (enumerate 0 xs) = enumerate 0 (take i xs)"
  by (cases "i \<le> length xs") (simp_all add: enumerate_eq_zip take_zip min_def)

lemma iterate_forward_set:
  "(j, n) \<in> set (iterateSiblingListBlocks doc i Forward) \<Longrightarrow>
     i \<le> j \<and> j < length doc \<and> n = doc ! j \<and> isListItemBlock n"
proof -
  assume a: "(j, n) \<in> set (iterateSiblingListBlocks doc i Forward)"
  then have "(j, n) \<in> set (takeWhile (\<lambda>p. isListItemBlock (snd p)) (enumerate i (drop i doc)))"
    by (simp add: iterateSiblingListBlocks_def drop_enumerate0)
  then have "(j, n) \<in> set (enumerate i (drop i doc)) \<and> isListItemBlock n"
    by (auto dest: set_takeWhileD)
  then show ?thesis by (auto simp: in_set_enumerate_eq)
qed

lemma iterate_backward_set:
  "(j, n) \<in> set (iterateSiblingListBlocks doc i Backward) \<Longrightarrow>
     j \<le> i \<and> j < length doc \<and> n = doc ! j \<and> isListItemBlock n"
proof -
  assume a: "(j, n) \<in> set (iterateSiblingListBlocks doc i Backward)"
  then have i: "i < length doc"
    by (auto simp: iterateSiblingListBlocks_def split: if_splits)
  with a have "(j, n) \<in> set (takeWhile (\<lambda>p. isListItemBlock (snd p))
                  (rev (enumerate 0 (take (Suc i) doc))))"
    by (simp add: iterateSiblingListBlocks_def take_enumerate0)
  then have "(j, n) \<in> set (enumerate 0 (take (Suc i) doc)) \<and> isListItemBlock n"
    by (auto dest: set_takeWhileD)
  then show ?thesis using i by (auto simp: in_set_enumerate_eq)
qed

lemma firstLowerIndent_Some:
  assumes "firstLowerIndent doc c = Some l"
  shows "l < c \<and> c < length doc \<and> isListItemBlock (doc ! l) \<and>
         listIndentOf (doc ! l) < listIndentOf (doc ! c)"
proof -
  from assms obtain j where c: "c = Suc j" and lt: "c < length doc"
    and f: "map_option fst (List.find (\<lambda>p. listIndentOf (snd p) < listIndentOf (doc ! c))
                     (iterateSiblingListBlocks doc j Backward)) = Some l"
    by (auto simp: firstLowerIndent_def split: nat.splits if_splits)
  then obtain n where fn: "List.find (\<lambda>p. listIndentOf (snd p) < listIndentOf (doc ! c))
                     (iterateSiblingListBlocks doc j Backward) = Some (l, n)"
    by auto
  then have mem: "(l, n) \<in> set (iterateSiblingListBlocks doc j Backward)"
    and low: "listIndentOf n < listIndentOf (doc ! c)"
    by (auto simp: find_Some_iff in_set_conv_nth) (metis snd_conv)+
  from iterate_backward_set[OF mem] low c lt show ?thesis by auto
qed

subsection \<open>C5: the wrappers of a block\<close>

text \<open>
  C5. For a block with \<^verbatim>\<open>listIndent\<close> \<open>n\<close>, \<^verbatim>\<open>wrapListItemBlock\<close> wraps the range (the
  block with any inserted marker) in one item wrapper and one list wrapper per level, from
  level \<open>n\<close> downwards, the pair of a level carrying the view attributes of every strategy of
  scope \<^verbatim>\<open>item\<close> and \<^verbatim>\<open>list\<close> whose attribute is set on the block governing that level.
  The levels are \<open>n, n - 1, ...\<close>; they reach 0 unless at some level no block of a lower
  indent precedes the governing block, where the wrapping ends with no error and the outer
  levels are left out. Nothing else of the range changes, and a block without
  \<^verbatim>\<open>listIndent\<close> is not wrapped at all.
\<close>

theorem wrapListItemBlock_levels:
  "(\<not> hasAttribute (doc ! listItem) ''listIndent'' \<longrightarrow>
      wrapListItemBlock doc listItem viewRange strategies = viewRange) \<and>
   (hasAttribute (doc ! listItem) ''listIndent'' \<longrightarrow>
      rangeParents (wrapListItemBlock doc listItem viewRange strategies) =
        rangeParents viewRange @
        concat (map (wrapperPair doc strategies)
                  (governingBlocks doc (listIndentOf (doc ! listItem)) listItem)) \<and>
      rangeElement (wrapListItemBlock doc listItem viewRange strategies) = rangeElement viewRange \<and>
      rangeNodesBefore (wrapListItemBlock doc listItem viewRange strategies) =
        rangeNodesBefore viewRange \<and>
      outerNodesBefore (wrapListItemBlock doc listItem viewRange strategies) =
        outerNodesBefore viewRange \<and>
      outerParents (wrapListItemBlock doc listItem viewRange strategies) = outerParents viewRange) \<and>
   governingBlocks doc n listItem ! 0 = (n, listItem) \<and>
   length (governingBlocks doc n listItem) \<le> Suc n \<and>
   (\<forall>j < length (governingBlocks doc n listItem). fst (governingBlocks doc n listItem ! j) = n - j) \<and>
   (\<forall>j. Suc j < length (governingBlocks doc n listItem) \<longrightarrow>
      firstLowerIndent doc (snd (governingBlocks doc n listItem ! j)) =
        Some (snd (governingBlocks doc n listItem ! Suc j))) \<and>
   (\<forall>j. Suc j < length (governingBlocks doc n listItem) \<longrightarrow>
      snd (governingBlocks doc n listItem ! Suc j) < snd (governingBlocks doc n listItem ! j) \<and>
      listIndentOf (doc ! snd (governingBlocks doc n listItem ! Suc j)) <
        listIndentOf (doc ! snd (governingBlocks doc n listItem ! j))) \<and>
   (length (governingBlocks doc n listItem) = Suc n \<or>
    firstLowerIndent doc (snd (last (governingBlocks doc n listItem))) = None)"
proof -
  have a: "\<not> hasAttribute (doc ! listItem) ''listIndent'' \<longrightarrow>
      wrapListItemBlock doc listItem viewRange strategies = viewRange"
    by (simp add: wrapListItemBlock_def)
  have b: "hasAttribute (doc ! listItem) ''listIndent'' \<longrightarrow>
      rangeParents (wrapListItemBlock doc listItem viewRange strategies) =
        rangeParents viewRange @
        concat (map (wrapperPair doc strategies)
                  (governingBlocks doc (listIndentOf (doc ! listItem)) listItem)) \<and>
      rangeElement (wrapListItemBlock doc listItem viewRange strategies) = rangeElement viewRange \<and>
      rangeNodesBefore (wrapListItemBlock doc listItem viewRange strategies) =
        rangeNodesBefore viewRange \<and>
      outerNodesBefore (wrapListItemBlock doc listItem viewRange strategies) =
        outerNodesBefore viewRange \<and>
      outerParents (wrapListItemBlock doc listItem viewRange strategies) = outerParents viewRange"
    by (simp add: wrapListItemBlock_def wrapLevels_parents wrapLevels_rest)
  have c: "\<forall>j < length (governingBlocks doc n listItem).
             fst (governingBlocks doc n listItem ! j) = n - j"
    by (simp add: governingBlocks_levels)
  have d: "\<forall>j. Suc j < length (governingBlocks doc n listItem) \<longrightarrow>
      firstLowerIndent doc (snd (governingBlocks doc n listItem ! j)) =
        Some (snd (governingBlocks doc n listItem ! Suc j))"
    by (simp add: governingBlocks_step)
  have e: "\<forall>j. Suc j < length (governingBlocks doc n listItem) \<longrightarrow>
      snd (governingBlocks doc n listItem ! Suc j) < snd (governingBlocks doc n listItem ! j) \<and>
      listIndentOf (doc ! snd (governingBlocks doc n listItem ! Suc j)) <
        listIndentOf (doc ! snd (governingBlocks doc n listItem ! j))"
    using d firstLowerIndent_Some by blast
  from a b c d e governingBlocks_head[of doc n listItem] governingBlocks_length[of doc n listItem]
    governingBlocks_stop[of doc n listItem]
  show ?thesis by blast
qed

lemmas downcast_eval =
  editableRoot_def plainView_def listReversedStrategy_def nestedDoc_def firstLowerIndent_def
  wrapListItemBlock_def levelWrappers_def createListItemElement_def createListElement_def
  wrap_def createRangeOn_def viewOfRange_def wrapperPair_def strategyAttributes_def
  createContainerElement_def

theorem wrapListItemBlock_levels_witness:
  "hasAttribute (nestedDoc ! 1) ''listIndent'' \<and>
   rangeParents (wrapListItemBlock nestedDoc 1 (createRangeOn plainView) [listReversedStrategy]) =
     [\<lparr>vkind = AttributeElement, vname = ''li'', vattrs = [], customProperties = [],
       vlevel = Some 1, vid = Some (VStr ''b'')\<rparr>,
      \<lparr>vkind = AttributeElement, vname = ''ul'', vattrs = [], customProperties = [],
       vlevel = Some 1, vid = Some (VStr ''bulleted'')\<rparr>,
      \<lparr>vkind = AttributeElement, vname = ''li'', vattrs = [], customProperties = [],
       vlevel = Some 0, vid = Some (VStr ''a'')\<rparr>,
      \<lparr>vkind = AttributeElement, vname = ''ol'', vattrs = [(''reversed'', ''reversed'')],
       customProperties = [], vlevel = Some 0, vid = Some (VStr ''numbered'')\<rparr>] \<and>
   governingBlocks nestedDoc 1 1 = [(1, 1), (0, 0)] \<and>
   rangeParents (wrapListItemBlock [listBlock ''b'' 1 ''bulleted''] 0 (createRangeOn plainView)
                   [listReversedStrategy]) =
     [\<lparr>vkind = AttributeElement, vname = ''li'', vattrs = [], customProperties = [],
       vlevel = Some 1, vid = Some (VStr ''b'')\<rparr>,
      \<lparr>vkind = AttributeElement, vname = ''ul'', vattrs = [], customProperties = [],
       vlevel = Some 1, vid = Some (VStr ''bulleted'')\<rparr>] \<and>
   governingBlocks [listBlock ''b'' 1 ''bulleted''] 1 0 = [(1, 0)] \<and>
   firstLowerIndent [listBlock ''b'' 1 ''bulleted''] 0 = None"
  using wrapListItemBlock_levels [of nestedDoc 1 "createRangeOn plainView" "[listReversedStrategy]" 1]
    wrapListItemBlock_levels [of "[listBlock ''b'' 1 ''bulleted'']" 0 "createRangeOn plainView"
      "[listReversedStrategy]" 1]
  by (simp add: downcast_eval walker_eval)

lemma consumer_fails_iff:
  "fst (createAttributesConsumer attributeNames doc item c) =
     (\<forall>a \<in> set attributeNames. hasAttribute (doc ! item) a \<longrightarrow>
        c (item, ''attribute:'' @ a) \<noteq> Some False)"
  by (auto simp: createAttributesConsumer_def consumerEvents_def Let_def list_all_iff)

lemma consumer_unchanged:
  "\<not> fst (createAttributesConsumer attributeNames doc item c) \<Longrightarrow>
     snd (createAttributesConsumer attributeNames doc item c) = c"
  by (auto simp: createAttributesConsumer_def Let_def)

lemma foldl_consume:
  "foldl (\<lambda>c' event. consume c' item event) c events (item, ev) =
     (if ev \<in> set events \<and> c (item, ev) = Some True then Some False else c (item, ev))"
  by (induction events arbitrary: c) (auto simp: consume_def)

lemma consumer_consumes:
  "fst (createAttributesConsumer attributeNames doc item c) \<Longrightarrow> a \<in> set attributeNames \<Longrightarrow>
   hasAttribute (doc ! item) a \<Longrightarrow>
   snd (createAttributesConsumer attributeNames doc item c) (item, ''attribute:'' @ a) \<noteq> Some True"
  by (auto simp: createAttributesConsumer_def consumerEvents_def Let_def foldl_consume
           split: if_splits)

lemma converter_guard:
  "attributeKey \<notin> set attributeNames \<or>
   \<not> fst (createAttributesConsumer attributeNames doc listItem (consumables st)) \<Longrightarrow>
   listItemDowncastConverter attributeNames strategies dataPipeline doc listItem attributeKey st =
     Some st"
  by (auto simp: listItemDowncastConverter_def split: prod.splits bool.splits)

lemma converter_consumables:
  "listItemDowncastConverter attributeNames strategies dataPipeline doc listItem attributeKey st =
     Some st' \<Longrightarrow> st' \<noteq> st \<Longrightarrow>
   attributeKey \<in> set attributeNames \<and>
   fst (createAttributesConsumer attributeNames doc listItem (consumables st)) \<and>
   consumables st' = snd (createAttributesConsumer attributeNames doc listItem (consumables st))"
  by (auto simp: listItemDowncastConverter_def Let_def
           split: prod.splits bool.splits option.splits if_splits)

subsection \<open>Markers and their wrappers\<close>

text \<open>
  A marker that is wrapped alone stands inside its wrapper, and converting the block again
  removes both before inserting the new ones: the view after the second conversion is that
  after the first.
\<close>

lemma marker_wrapper_reconverted:
  "(case listItemDowncastConverter listAttributeNames [checkboxStrategy] False singleItemDoc 0
           ''listType'' \<lparr>blockViews = plainViews, consumables = allConsumable\<rparr> of
      None \<Rightarrow> False
    | Some st \<Rightarrow>
        map_option nodesBefore (blockViews st 0) =
          Some [ViewTree
                  \<lparr>vkind = AttributeElement, vname = ''label'', vattrs = [],
                   customProperties = [(''listItemWrapper'', True)], vlevel = None, vid = None\<rparr>
                  [ViewTree
                     \<lparr>vkind = ContainerElement, vname = ''input'', vattrs = [],
                      customProperties = [(''listItemMarker'', True)], vlevel = None,
                      vid = None\<rparr> []]] \<and>
        (case listItemDowncastConverter listAttributeNames [checkboxStrategy] False singleItemDoc
                0 ''listType'' (st\<lparr>consumables := allConsumable\<rparr>) of
           None \<Rightarrow> False
         | Some st' \<Rightarrow> blockViews st' 0 = blockViews st 0))"
  by code_simp

subsection \<open>C10: the downcast converter leaves alone what it may not convert\<close>

text \<open>
  C10. When the attribute key of the event is not one of the list attribute names, or when
  the event of some list attribute set on the block tests \<^verbatim>\<open>false\<close> in the consumable, the
  converter returns with the views and the consumable as they were: no marker is removed,
  nothing is unwrapped or wrapped, nothing is consumed. Whenever it does change the state, the
  key is a list attribute name, no list attribute set on the block tested \<^verbatim>\<open>false\<close>
  before, and none of them is consumable afterwards.
\<close>

theorem listItemDowncastConverter_frame:
  "(attributeKey \<notin> set attributeNames \<longrightarrow>
      listItemDowncastConverter attributeNames strategies dataPipeline doc listItem attributeKey st =
        Some st) \<and>
   ((\<exists>a \<in> set attributeNames. hasAttribute (doc ! listItem) a \<and>
        consumables st (listItem, ''attribute:'' @ a) = Some False) \<longrightarrow>
      listItemDowncastConverter attributeNames strategies dataPipeline doc listItem attributeKey st =
        Some st) \<and>
   (\<forall>st'. listItemDowncastConverter attributeNames strategies dataPipeline doc listItem
             attributeKey st = Some st' \<longrightarrow> st' \<noteq> st \<longrightarrow>
      attributeKey \<in> set attributeNames \<and>
      (\<forall>a \<in> set attributeNames. hasAttribute (doc ! listItem) a \<longrightarrow>
         consumables st (listItem, ''attribute:'' @ a) \<noteq> Some False \<and>
         consumables st' (listItem, ''attribute:'' @ a) \<noteq> Some True))"
proof (intro conjI allI impI)
  assume "attributeKey \<notin> set attributeNames"
  then show "listItemDowncastConverter attributeNames strategies dataPipeline doc listItem
               attributeKey st = Some st"
    by (simp add: converter_guard)
next
  assume "\<exists>a \<in> set attributeNames. hasAttribute (doc ! listItem) a \<and>
        consumables st (listItem, ''attribute:'' @ a) = Some False"
  then have "\<not> fst (createAttributesConsumer attributeNames doc listItem (consumables st))"
    by (auto simp: consumer_fails_iff)
  then show "listItemDowncastConverter attributeNames strategies dataPipeline doc listItem
               attributeKey st = Some st"
    by (simp add: converter_guard)
next
  fix st'
  assume "listItemDowncastConverter attributeNames strategies dataPipeline doc listItem
             attributeKey st = Some st'" and "st' \<noteq> st"
  from converter_consumables[OF this]
  show "attributeKey \<in> set attributeNames" by simp
next
  fix st'
  assume c: "listItemDowncastConverter attributeNames strategies dataPipeline doc listItem
             attributeKey st = Some st'" and ne: "st' \<noteq> st"
  from converter_consumables[OF c ne]
  have ok: "fst (createAttributesConsumer attributeNames doc listItem (consumables st))"
    and eq: "consumables st' =
               snd (createAttributesConsumer attributeNames doc listItem (consumables st))"
    by simp_all
  show "\<forall>a \<in> set attributeNames. hasAttribute (doc ! listItem) a \<longrightarrow>
         consumables st (listItem, ''attribute:'' @ a) \<noteq> Some False \<and>
         consumables st' (listItem, ''attribute:'' @ a) \<noteq> Some True"
    using ok consumer_consumes[OF ok] unfolding eq by (auto simp: consumer_fails_iff)
qed

lemmas converter_eval =
  listItemDowncastConverter_def createAttributesConsumer_def consumerEvents_def consume_def
  removeCustomMarkerElements_def unwrapListItemBlock_def insertCustomMarkerElements_def
  isFirstBlockOfListItem_def allConsumable_def plainViews_def

theorem listItemDowncastConverter_frame_witness:
  "listItemDowncastConverter listAttributeNames [listReversedStrategy] False nestedDoc 1
     ''alignment'' \<lparr>blockViews = plainViews, consumables = allConsumable\<rparr> =
     Some \<lparr>blockViews = plainViews, consumables = allConsumable\<rparr> \<and>
   listItemDowncastConverter listAttributeNames [listReversedStrategy] False nestedDoc 1
     ''listIndent''
     \<lparr>blockViews = plainViews,
      consumables = allConsumable((1, ''attribute:listType'') := Some False)\<rparr> =
     Some \<lparr>blockViews = plainViews,
           consumables = allConsumable((1, ''attribute:listType'') := Some False)\<rparr> \<and>
   map_option (\<lambda>s. (map_option (\<lambda>v. map vname (parents v)) (blockViews s 1),
                     consumables s (1, ''attribute:listType'')))
     (listItemDowncastConverter listAttributeNames [listReversedStrategy] False nestedDoc 1
        ''listIndent'' \<lparr>blockViews = plainViews, consumables = allConsumable\<rparr>) =
     Some (Some [''li'', ''ul'', ''li'', ''ol'', ''div''], Some False)"
  using listItemDowncastConverter_frame [of "''alignment''" listAttributeNames
      "[listReversedStrategy]" False nestedDoc 1
      "\<lparr>blockViews = plainViews, consumables = allConsumable\<rparr>"]
    listItemDowncastConverter_frame [of "''listIndent''" listAttributeNames
      "[listReversedStrategy]" False nestedDoc 1
      "\<lparr>blockViews = plainViews,
        consumables = allConsumable((1, ''attribute:listType'') := Some False)\<rparr>"]
  by (simp add: converter_eval downcast_eval walker_eval)

lemma sameItemWalk_subset: "set (sameItemWalk s xs) \<subseteq> fst ` set xs"
  by (induction s xs rule: sameItemWalk.induct) (auto split: if_splits)

lemma sameItemWalk_distinct: "distinct (map fst xs) \<Longrightarrow> distinct (sameItemWalk s xs)"
proof (induction s xs rule: sameItemWalk.induct)
  case (1 start)
  then show ?case by simp
next
  case (2 start j n rest)
  then show ?case using sameItemWalk_subset[of start rest] by (auto split: if_splits)
qed

lemma sameItemWalk_member:
  "b \<in> set (sameItemWalk s xs) \<Longrightarrow>
     \<exists>n. (b, n) \<in> set xs \<and> listIndentOf n = listIndentOf s \<and>
         getAttribute n ''listItemId'' = getAttribute s ''listItemId''"
  by (induction s xs rule: sameItemWalk.induct) (auto split: if_splits)

lemma sameItemWalk_between:
  assumes "distinct (map fst (pre @ (j, nj) # rest))"
    and "b \<in> set (sameItemWalk s (pre @ (j, nj) # rest))"
    and "b \<in> set (sameItemWalk nj rest)"
  shows "j \<in> set (sameItemWalk s (pre @ (j, nj) # rest))"
  using assms
proof (induction pre)
  case Nil
  from Nil(3) obtain n' where n': "(b, n') \<in> set rest" "listIndentOf n' = listIndentOf nj"
    using sameItemWalk_member by blast
  show ?case
  proof (cases "listIndentOf nj > listIndentOf s")
    case True
    with Nil(2) have "b \<in> set (sameItemWalk s rest)" by (auto split: if_splits)
    then obtain n where n: "(b, n) \<in> set rest" "listIndentOf n = listIndentOf s"
      using sameItemWalk_member by blast
    from Nil(1) have "distinct (map fst rest)" by simp
    from \<open>distinct (map fst rest)\<close> n(1) n'(1) have "n = n'" by (rule eq_key_imp_eq_value)
    with n n' True show ?thesis by simp
  next
    case False
    with Nil(2) show ?thesis by (auto split: if_splits)
  qed
next
  case (Cons p pre)
  obtain k nk where p: "p = (k, nk)" by (cases p)
  from Cons.prems(3) have "b \<in> fst ` set rest" using sameItemWalk_subset by blast
  moreover from Cons.prems(1) have "k \<notin> fst ` set rest" unfolding p by (simp add: image_Un)
  ultimately have bk: "b \<noteq> k" by blast
  from Cons.prems(2) bk have "b \<in> set (sameItemWalk s (pre @ (j, nj) # rest))"
    unfolding p by (auto split: if_splits)
  with Cons.IH Cons.prems have "j \<in> set (sameItemWalk s (pre @ (j, nj) # rest))" by simp
  with Cons.prems(2) show ?case unfolding p by (auto split: if_splits)
qed

lemma drop_enumerate_gen: "drop k (enumerate m xs) = enumerate (m + k) (drop k xs)"
  by (cases "k \<le> length xs") (simp_all add: enumerate_eq_zip drop_zip add.commute)

lemma drop_takeWhile_le:
  "k \<le> length (takeWhile P xs) \<Longrightarrow> drop k (takeWhile P xs) = takeWhile P (drop k xs)"
proof (induction xs arbitrary: k)
  case Nil
  then show ?case by simp
next
  case (Cons x xs)
  then show ?case by (cases k) (auto split: if_splits)
qed

lemma iterate_forward_eq:
  "iterateSiblingListBlocks doc h Forward =
     takeWhile (\<lambda>p. isListItemBlock (snd p)) (enumerate h (drop h doc))"
  by (simp add: iterateSiblingListBlocks_def drop_enumerate_gen)

lemma iterate_forward_nth:
  assumes "k < length (iterateSiblingListBlocks doc h Forward)"
  shows "iterateSiblingListBlocks doc h Forward ! k = (h + k, doc ! (h + k)) \<and> h + k < length doc"
proof -
  let ?E = "enumerate h (drop h doc)"
  let ?P = "\<lambda>p. isListItemBlock (snd p)"
  from assms have k: "k < length (takeWhile ?P ?E)" by (simp add: iterate_forward_eq)
  also have "\<dots> \<le> length ?E" by (rule length_takeWhile_le)
  finally have kE: "k < length ?E" .
  then have kd: "k < length (drop h doc)" by simp
  have "takeWhile ?P ?E ! k = ?E ! k" using k by (rule takeWhile_nth)
  also have "\<dots> = (h + k, drop h doc ! k)" using kd by (simp add: nth_enumerate_eq)
  finally show ?thesis using kd by (simp add: iterate_forward_eq)
qed

lemma iterate_suffix:
  assumes "iterateSiblingListBlocks doc h Forward = pre @ (i, n) # rest"
  shows "iterateSiblingListBlocks doc i Forward = (i, n) # rest \<and> i < length doc \<and> n = doc ! i"
proof -
  let ?L = "iterateSiblingListBlocks doc h Forward"
  let ?P = "\<lambda>p. isListItemBlock (snd p)"
  let ?k = "length pre"
  have k: "?k < length ?L" using assms by simp
  from iterate_forward_nth[OF k] assms
  have i: "i = h + ?k" and n: "n = doc ! i" and lt: "i < length doc"
    by (auto simp: nth_append)
  have "(i, n) # rest = drop ?k ?L" using assms by simp
  also have "\<dots> = takeWhile ?P (drop ?k (enumerate h (drop h doc)))"
    unfolding iterate_forward_eq using k
    by (intro drop_takeWhile_le) (simp add: iterate_forward_eq)
  also have "\<dots> = takeWhile ?P (enumerate i (drop i doc))"
    by (simp add: drop_enumerate_gen i add.commute)
  also have "\<dots> = iterateSiblingListBlocks doc i Forward" by (simp add: iterate_forward_eq)
  finally show ?thesis using n lt by simp
qed

lemma iterate_forward_distinct: "distinct (map fst (iterateSiblingListBlocks doc h Forward))"
proof -
  have "distinct (map fst (enumerate h (drop h doc)))" by (simp add: map_fst_enumerate)
  then have "distinct (map fst (takeWhile (\<lambda>p. isListItemBlock (snd p)) (enumerate h (drop h doc)) @
      dropWhile (\<lambda>p. isListItemBlock (snd p)) (enumerate h (drop h doc))))"
    by simp
  then show ?thesis unfolding iterate_forward_eq map_append by (simp only: distinct_append)
qed

lemma walkList_iterate: "walkList doc (iterateSiblingListBlocks doc h Forward)"
  unfolding walkList_def using iterate_suffix by blast

lemma walkList_tail: "walkList doc (x # xs) \<Longrightarrow> walkList doc xs"
  unfolding walkList_def by (metis append_Cons)

lemma walkInv_tail: "walkInv visited (x # xs) \<Longrightarrow> walkInv visited xs"
  unfolding walkInv_def by (metis append_Cons)

lemma walkList_blocks:
  assumes "walkList doc ((i, n) # rest)"
  shows "getListItemBlocks doc i Forward = i # sameItemWalk n rest"
proof -
  from assms have "iterateSiblingListBlocks doc i Forward = (i, n) # rest"
    and "i < length doc" and "n = doc ! i"
    unfolding walkList_def by blast+
  then show ?thesis by (simp add: getListItemBlocks_def)
qed

lemma walkInv_step:
  assumes inv: "walkInv visited ((i, n) # rest)"
    and d: "distinct (map fst ((i, n) # rest))"
  shows "walkInv (visited @ i # sameItemWalk n rest) rest"
  unfolding walkInv_def
proof (intro allI impI)
  fix pre j nj rest'
  assume split: "rest = pre @ (j, nj) # rest'"
    and j: "j \<notin> set (visited @ i # sameItemWalk n rest)"
  from j have jv: "j \<notin> set visited" and jw: "j \<notin> set (sameItemWalk n rest)" by auto
  have old: "set (sameItemWalk nj rest') \<inter> set visited = {}"
    using inv jv split unfolding walkInv_def by (metis append_Cons)
  have sub: "set (sameItemWalk nj rest') \<subseteq> fst ` set rest'" by (rule sameItemWalk_subset)
  from d split have "i \<notin> fst ` set rest'" by (simp add: image_Un)
  with sub have noti: "i \<notin> set (sameItemWalk nj rest')" by blast
  have disj: "set (sameItemWalk nj rest') \<inter> set (sameItemWalk n rest) = {}"
  proof (rule ccontr)
    assume "set (sameItemWalk nj rest') \<inter> set (sameItemWalk n rest) \<noteq> {}"
    then obtain b where b1: "b \<in> set (sameItemWalk nj rest')"
      and b2: "b \<in> set (sameItemWalk n rest)" by blast
    from d split have dr: "distinct (map fst (pre @ (j, nj) # rest'))" by simp
    from sameItemWalk_between[OF dr b2[unfolded split] b1] jw split show False by simp
  qed
  from old noti disj
  show "set (sameItemWalk nj rest') \<inter> set (visited @ i # sameItemWalk n rest) = {}" by auto
qed

lemma collectLoop_distinct:
  assumes "walkList doc xs" and "distinct (map fst xs)" and "walkInv visited xs"
  shows "distinct (map fst (collectLoop ed names doc changed xs prev visited stack)) \<and>
         set (map fst (collectLoop ed names doc changed xs prev visited stack)) \<inter> set visited = {} \<and>
         set (map fst (collectLoop ed names doc changed xs prev visited stack)) \<subseteq> fst ` set xs"
  using assms
proof (induction xs arbitrary: prev visited stack)
  case Nil
  then show ?case by simp
next
  case (Cons x xs)
  obtain i n where x: "x = (i, n)" by (cases x)
  have wl: "walkList doc xs" using Cons.prems(1) by (rule walkList_tail)
  have dx: "distinct (map fst xs)" using Cons.prems(2) by simp
  show ?case
  proof (cases "i \<in> set visited")
    case True
    have inv: "walkInv visited xs" using Cons.prems(3) by (rule walkInv_tail)
    from Cons.IH[OF wl dx inv, of "Some n" stack] True show ?thesis
      unfolding x by auto
  next
    case False
    let ?B = "i # sameItemWalk n xs"
    have blocks: "getListItemBlocks doc i Forward = ?B"
      using Cons.prems(1) unfolding x by (rule walkList_blocks)
    have inv': "walkInv (visited @ ?B) xs"
      using Cons.prems(3) Cons.prems(2) unfolding x by (rule walkInv_step)
    have sub: "set (sameItemWalk n xs) \<subseteq> fst ` set xs" by (rule sameItemWalk_subset)
    from Cons.prems(2) have ni: "i \<notin> fst ` set xs" unfolding x by simp
    have dB: "distinct ?B" using sub ni sameItemWalk_distinct[OF dx, of n] by auto
    have Bv: "set ?B \<inter> set visited = {}"
      using False Cons.prems(3) unfolding walkInv_def x by (metis Int_insert_left append_Nil list.simps(15))
    let ?stack' = "setAt (case prev of None \<Rightarrow> stack
                | Some p \<Rightarrow> if listIndentOf n < listIndentOf p then setLength stack (listIndentOf n + 1)
                    else stack) (listIndentOf n) (filter (\<lambda>a. fst a \<in> set names) (attrs n))"
    let ?R = "collectLoop ed names doc changed xs (Some n) (visited @ ?B) ?stack'"
    have eq: "map fst (collectLoop ed names doc changed (x # xs) prev visited stack) =
               ?B @ map fst ?R"
      unfolding x using False by (simp add: blocks Let_def comp_def)
    from Cons.IH[OF wl dx inv', of "Some n" ?stack']
    have R: "distinct (map fst ?R)" "set (map fst ?R) \<inter> set (visited @ ?B) = {}"
      "set (map fst ?R) \<subseteq> fst ` set xs" by blast+
    show ?thesis
      unfolding eq using dB Bv R sub unfolding x by auto
  qed
qed

lemma collectChecks_distinct:
  "distinct (map fst (collectChecks ed names doc h changed)) \<and>
   set (map fst (collectChecks ed names doc h changed)) \<subseteq>
     fst ` set (iterateSiblingListBlocks doc h Forward)"
proof -
  have "walkInv [] (iterateSiblingListBlocks doc h Forward)" by (simp add: walkInv_def)
  from collectLoop_distinct[OF walkList_iterate iterate_forward_distinct this]
  show ?thesis unfolding collectChecks_def by blast
qed

lemma iterate_forward_all:
  assumes "k < length (iterateSiblingListBlocks doc h Forward)"
  shows "isListItemBlock (doc ! (h + k))"
proof -
  from assms have "iterateSiblingListBlocks doc h Forward ! k \<in>
      set (takeWhile (\<lambda>p. isListItemBlock (snd p)) (enumerate h (drop h doc)))"
    by (simp add: iterate_forward_eq)
  then have "isListItemBlock (snd (iterateSiblingListBlocks doc h Forward ! k))"
    by (auto dest: set_takeWhileD)
  with iterate_forward_nth[OF assms] show ?thesis by simp
qed

lemma iterate_forward_mem:
  assumes "j \<in> fst ` set (iterateSiblingListBlocks doc h Forward)"
  shows "h \<le> j \<and> (\<forall>m. h \<le> m \<and> m \<le> j \<longrightarrow> isListItemBlock (doc ! m))"
proof -
  let ?L = "iterateSiblingListBlocks doc h Forward"
  from assms obtain k where k: "k < length ?L" and j: "j = fst (?L ! k)"
    by (auto simp: in_set_conv_nth)
  with iterate_forward_nth[OF k] have jk: "j = h + k" by simp
  have "\<forall>m. h \<le> m \<and> m \<le> j \<longrightarrow> isListItemBlock (doc ! m)"
  proof (intro allI impI)
    fix m assume m: "h \<le> m \<and> m \<le> j"
    then have "m - h < length ?L" using k jk by arith
    from iterate_forward_all[OF this] m show "isListItemBlock (doc ! m)" by simp
  qed
  with jk show ?thesis by simp
qed

lemma runs_disjoint:
  assumes "isRunHead doc h1" and "isRunHead doc h2" and "h1 \<noteq> h2"
  shows "fst ` set (iterateSiblingListBlocks doc h1 Forward) \<inter>
         fst ` set (iterateSiblingListBlocks doc h2 Forward) = {}"
proof (rule ccontr)
  assume "\<not> ?thesis"
  then obtain j where j1: "j \<in> fst ` set (iterateSiblingListBlocks doc h1 Forward)"
    and j2: "j \<in> fst ` set (iterateSiblingListBlocks doc h2 Forward)" by blast
  note m1 = iterate_forward_mem[OF j1] and m2 = iterate_forward_mem[OF j2]
  show False
  proof (cases "h1 < h2")
    case True
    with m2 have "h1 \<le> h2 - 1 \<and> h2 - 1 \<le> j" by arith
    with m1 have "isListItemBlock (doc ! (h2 - 1))" by blast
    with assms(2) True show False by (simp add: isRunHead_def)
  next
    case False
    with assms(3) have lt: "h2 < h1" by simp
    with m1 have "h2 \<le> h1 - 1 \<and> h1 - 1 \<le> j" by arith
    with m2 have "isListItemBlock (doc ! (h1 - 1))" by blast
    with assms(1) lt show False by (simp add: isRunHead_def)
  qed
qed

lemma foldl_fst_last: "xs \<noteq> [] \<Longrightarrow> foldl (\<lambda>h p. fst p) q xs = fst (last xs)"
  by (induction xs arbitrary: q) auto

lemma backward_head:
  assumes q: "q < length doc" and li: "isListItemBlock (doc ! q)"
  shows "isRunHead doc (foldl (\<lambda>h p. fst p) q (iterateSiblingListBlocks doc q Backward))"
proof -
  let ?P = "\<lambda>p. isListItemBlock (snd p)"
  let ?X = "rev (take (Suc q) (enumerate 0 doc))"
  let ?L = "takeWhile ?P ?X"
  have L: "iterateSiblingListBlocks doc q Backward = ?L"
    using q by (simp add: iterateSiblingListBlocks_def)
  have lenX: "length ?X = Suc q" using q by simp
  have X: "\<And>j. j \<le> q \<Longrightarrow> ?X ! j = (q - j, doc ! (q - j))"
    using q by (simp add: rev_nth nth_enumerate_eq)
  have Xne: "?X \<noteq> []" using lenX by (metis length_0_conv nat.distinct(1))
  have "?P (?X ! 0)" using X[of 0] li by simp
  then have "?P (hd ?X)" using hd_conv_nth[OF Xne] by metis
  then have ne: "?L \<noteq> []" using Xne by (cases ?X) auto
  let ?m = "length ?L"
  have m1: "1 \<le> ?m" using ne by (simp add: Suc_leI)
  have mle: "?m \<le> Suc q" using length_takeWhile_le[of ?P ?X] lenX by simp
  have "last ?L = ?L ! (?m - 1)" using ne by (simp add: last_conv_nth)
  also have "\<dots> = ?X ! (?m - 1)" using m1 by (intro takeWhile_nth) simp
  also have "\<dots> = (q - (?m - 1), doc ! (q - (?m - 1)))" using mle by (intro X) simp
  finally have last: "last ?L = (q - (?m - 1), doc ! (q - (?m - 1)))" .
  have "last ?L \<in> set ?L" using ne by simp
  then have Plast: "?P (last ?L)" by (auto dest: set_takeWhileD)
  let ?h = "q - (?m - 1)"
  have h: "foldl (\<lambda>h p. fst p) q (iterateSiblingListBlocks doc q Backward) = ?h"
    unfolding L using foldl_fst_last[OF ne] last by simp
  have hl: "?h < length doc" using q by simp
  have hP: "isListItemBlock (doc ! ?h)" using Plast last by simp
  have "?h = 0 \<or> \<not> isListItemBlock (doc ! (?h - 1))"
  proof (cases "?m = Suc q")
    case True
    then show ?thesis by simp
  next
    case False
    with mle have lt: "?m < length ?X" using lenX by simp
    then have "\<not> ?P (?X ! ?m)" by (rule nth_length_takeWhile)
    moreover have "?X ! ?m = (q - ?m, doc ! (q - ?m))" using lt lenX by (intro X) simp
    ultimately have "\<not> isListItemBlock (doc ! (q - ?m))" by simp
    moreover have "?h - 1 = q - ?m" using m1 by simp
    ultimately show ?thesis by simp
  qed
  with hl hP show ?thesis unfolding h isRunHead_def by blast
qed

lemma listHeadAt_head:
  assumes "listHeadAt doc p = Some (item, h)"
  shows "isRunHead doc h"
proof (cases "nodeBefore doc p")
  case None
  with assms have "h = p" "p < length doc" "isListItemBlock (doc ! p)"
    by (auto simp: listHeadAt_def nodeAfter_def split: option.splits if_splits)
  moreover from None have "p = 0 \<or> length doc < p"
    by (auto simp: nodeBefore_def split: nat.splits if_splits)
  ultimately show ?thesis by (auto simp: isRunHead_def)
next
  case (Some q)
  then have pq: "p = Suc q" and q: "q < length doc"
    by (auto simp: nodeBefore_def split: nat.splits if_splits)
  show ?thesis
  proof (cases "isListItemBlock (doc ! q)")
    case True
    with assms Some have "h = foldl (\<lambda>h p. fst p) q (iterateSiblingListBlocks doc q Backward)"
      by (auto simp: listHeadAt_def)
    with backward_head[OF q True] show ?thesis by simp
  next
    case False
    with assms Some have "h = p" "p < length doc" "isListItemBlock (doc ! p)"
      by (auto simp: listHeadAt_def nodeAfter_def split: option.splits if_splits)
    with False pq show ?thesis by (simp add: isRunHead_def)
  qed
qed

lemma findAndAdd_headsOk: "headsOk doc m \<Longrightarrow> headsOk doc (findAndAddListHeadToMap doc p m)"
  by (auto simp: findAndAddListHeadToMap_def headsOk_def dest: listHeadAt_head
           split: option.splits)

lemma scanEntry_headsOk:
  "headsOk doc (itemToListHead st) \<Longrightarrow>
   headsOk doc (itemToListHead (scanEntry ed names doc entry st))"
  by (cases entry)
     (auto simp: addListHead_def addChanged_def pushIfRequired_def Let_def
           intro!: findAndAdd_headsOk split: option.splits)

lemma scan_foldl_headsOk:
  "headsOk doc (itemToListHead st) \<Longrightarrow>
   headsOk doc (itemToListHead (foldl (\<lambda>st entry. scanEntry ed names doc entry st) st changes))"
  by (induction changes arbitrary: st) (auto intro: scanEntry_headsOk)

lemma scanChanges_headsOk: "headsOk doc (itemToListHead (scanChanges ed names doc changes))"
  unfolding scanChanges_def by (rule scan_foldl_headsOk) (simp add: headsOk_def)

lemma examined_heads_distinct:
  assumes "distinct hs" and "\<forall>h \<in> set hs. isRunHead doc h"
  shows "distinct (concat (map (\<lambda>h. map fst (collectChecks ed names doc h changed)) hs))"
  using assms
proof (induction hs)
  case Nil
  then show ?case by simp
next
  case (Cons h hs)
  have d: "distinct (map fst (collectChecks ed names doc h changed))"
    using collectChecks_distinct by blast
  have disj: "set (map fst (collectChecks ed names doc h changed)) \<inter>
              set (map fst (collectChecks ed names doc h' changed)) = {}" if "h' \<in> set hs" for h'
  proof -
    from that Cons.prems have "h \<noteq> h'" "isRunHead doc h" "isRunHead doc h'" by auto
    from runs_disjoint[OF this(2) this(3) this(1)]
      collectChecks_distinct[of ed names doc h changed]
      collectChecks_distinct[of ed names doc h' changed]
    show ?thesis by blast
  qed
  from Cons have "distinct (concat (map (\<lambda>h. map fst (collectChecks ed names doc h changed)) hs))"
    by simp
  with d disj show ?case by auto
qed

lemma setOf_set: "set (setOf xs) = set xs"
  by (induction xs) auto

lemma setOf_distinct: "distinct (setOf xs)"
  by (induction xs) (auto simp: setOf_set)

lemma collectAll_Some:
  "collectAll ed names doc changed hs items = Some r \<Longrightarrow>
     r = items @ concat (map (\<lambda>h. map fst (filter (\<lambda>c. snd c = Some True)
                                   (collectChecks ed names doc h changed))) hs)"
proof (induction hs arbitrary: items)
  case Nil
  then show ?case by simp
next
  case (Cons h hs)
  let ?found = "map fst (filter (\<lambda>c. snd c = Some True) (collectChecks ed names doc h changed))"
  from Cons.prems have "collectAll ed names doc changed hs (items @ ?found) = Some r"
    by (auto simp: collectListItemsToRefresh_def Let_def split: option.splits if_splits)
  from Cons.IH[OF this] show ?case by simp
qed

lemma reconvert_set:
  assumes "reconvertItemsOnDataChange ed names doc changes = Some items"
  shows "distinct items \<and>
         set items =
           set (itemsToRefresh (scanChanges ed names doc changes)) \<union>
           {b. \<exists>h \<in> snd ` set (itemToListHead (scanChanges ed names doc changes)).
                 (b, Some True) \<in>
                   set (collectChecks ed names doc h (changedItems (scanChanges ed names doc changes)))}"
proof -
  let ?st = "scanChanges ed names doc changes"
  from assms obtain r where r: "collectAll ed names doc (changedItems ?st)
      (map snd (itemToListHead ?st)) (itemsToRefresh ?st) = Some r" and items: "items = setOf r"
    by (auto simp: reconvertItemsOnDataChange_def Let_def)
  from collectAll_Some[OF r] have "set r = set (itemsToRefresh ?st) \<union>
           {b. \<exists>h \<in> snd ` set (itemToListHead ?st).
                 (b, Some True) \<in> set (collectChecks ed names doc h (changedItems ?st))}"
    by force
  with items show ?thesis by (simp add: setOf_set setOf_distinct)
qed

subsection \<open>C8: each block is examined once, each refresh is made once\<close>

text \<open>
  C8. In one run of the scheduler no block is handed to the checks twice: not within the walk
  from one list head (the visited set) and not from two list heads (the recorded heads are
  the heads of different runs of list blocks, which do not meet). When the run does not throw,
  \<^verbatim>\<open>reconvertItem\<close> is called once for each block of the refresh set: the calls are pairwise
  different, and they are the blocks pushed during the scan together with the blocks whose
  checks asked for a refresh.
\<close>

theorem scheduler_examines_once:
  "distinct (examinedBlocks ed attributeNames doc changes) \<and>
   (\<forall>items. reconvertItemsOnDataChange ed attributeNames doc changes = Some items \<longrightarrow>
      distinct items \<and>
      set items =
        set (itemsToRefresh (scanChanges ed attributeNames doc changes)) \<union>
        {b. \<exists>h \<in> snd ` set (itemToListHead (scanChanges ed attributeNames doc changes)).
              (b, Some True) \<in>
                set (collectChecks ed attributeNames doc h
                       (changedItems (scanChanges ed attributeNames doc changes)))})"
proof -
  let ?st = "scanChanges ed attributeNames doc changes"
  have "headsOk doc (itemToListHead ?st)" by (rule scanChanges_headsOk)
  then have "distinct (map snd (itemToListHead ?st))"
    and "\<forall>h \<in> set (map snd (itemToListHead ?st)). isRunHead doc h"
    by (auto simp: headsOk_def)
  from examined_heads_distinct[OF this]
  have "distinct (examinedBlocks ed attributeNames doc changes)"
    by (simp add: examinedBlocks_def Let_def)
  moreover have "\<forall>items. reconvertItemsOnDataChange ed attributeNames doc changes = Some items \<longrightarrow>
      distinct items \<and>
      set items =
        set (itemsToRefresh ?st) \<union>
        {b. \<exists>h \<in> snd ` set (itemToListHead ?st).
              (b, Some True) \<in> set (collectChecks ed attributeNames doc h (changedItems ?st))}"
    by (intro allI impI) (rule reconvert_set)
  ultimately show ?thesis by (rule conjI)
qed

theorem scheduler_examines_once_witness:
  "distinct (examinedBlocks (exampleEditing splitItemViews) listAttributeNames splitItemDoc
               [listTypeChange 0, listTypeChange 2]) \<and>
   examinedBlocks (exampleEditing splitItemViews) listAttributeNames splitItemDoc
     [listTypeChange 0, listTypeChange 2] = [0, 2, 1] \<and>
   reconvertItemsOnDataChange (exampleEditing splitItemViews) listAttributeNames splitItemDoc
     [listTypeChange 0, listTypeChange 2] = Some [1]"
proof -
  have examined: "examinedBlocks (exampleEditing splitItemViews) listAttributeNames splitItemDoc
     [listTypeChange 0, listTypeChange 2] = [0, 2, 1]"
    by code_simp
  have reconverted: "reconvertItemsOnDataChange (exampleEditing splitItemViews) listAttributeNames
     splitItemDoc [listTypeChange 0, listTypeChange 2] = Some [1]"
    by code_simp
  have once: "distinct (examinedBlocks (exampleEditing splitItemViews) listAttributeNames
     splitItemDoc [listTypeChange 0, listTypeChange 2])"
    using scheduler_examines_once [of "exampleEditing splitItemViews" listAttributeNames
      splitItemDoc "[listTypeChange 0, listTypeChange 2]"]
    by (rule conjunct1)
  from once examined reconverted show ?thesis by (intro conjI)
qed




subsection \<open>C2: what a change of a list attribute refreshes\<close>


subsubsection \<open>The stack of the walk\<close>










































text \<open>
  In a list where an item continues after a nested list the walk can hold a stale level. In
  \<open>staleDoc\<close> the walk skips the second block of \<open>a\<close>, already visited, without trimming the
  stack after the nested item \<open>b\<close>; so the item \<open>c\<close> is checked against the snapshot of \<open>b\<close>
  above its own and is refreshed, although its wrappers agree with the expected stack. The
  refresh set after the change of \<open>b\<close> is then this sibling, and not the block of \<open>b\<close>.
\<close>

lemma stale_snapshot_refreshes_sibling:
  "reconvertItemsOnDataChange staleEditing listAttributeNames staleDoc [listTypeChange 1] =
     Some [3] \<and>
   getAllListItemBlocks staleDoc 1 = [1] \<and>
   \<not> adjacentItems staleDoc 0 \<and>
   contextsFrom listAttributeNames staleDoc 0 ! 3 =
     (3, [Some (attrs (staleDoc ! 3)), Some (attrs (staleDoc ! 1))], [3]) \<and>
   expectedStack listAttributeNames (blocksUpTo staleDoc 0 3) = [Some (attrs (staleDoc ! 3))] \<and>
   doesItemWrappingRequiresRefresh staleEditing 3 [Some (attrs (staleDoc ! 3))] [1] = Some False"
  by code_simp

subsubsection \<open>The amended claim\<close>



lemma findAndAdd_records:
  "listHeadAt doc p = Some (item, h) \<Longrightarrow> h \<in> snd ` set (findAndAddListHeadToMap doc p m)"
  by (auto simp: findAndAddListHeadToMap_def)

lemma findAndAdd_mono: "set m \<subseteq> set (findAndAddListHeadToMap doc p m)"
  by (auto simp: findAndAddListHeadToMap_def split: option.splits)

lemma listHeadAt_after_plain:
  assumes "\<not> isListItemBlock (doc ! start)" and "Suc start < length doc"
    and "isListItemBlock (doc ! Suc start)"
  shows "listHeadAt doc (Suc start) = Some (Suc start, Suc start)"
  using assms by (simp add: listHeadAt_def nodeBefore_def nodeAfter_def)

lemma iterate_forward_Cons:
  assumes "h < length doc" and "isListItemBlock (doc ! h)"
  shows "\<exists>rest. iterateSiblingListBlocks doc h Forward = (h, doc ! h) # rest"
proof -
  from assms(1) have "drop h doc = doc ! h # drop (Suc h) doc" by (simp add: Cons_nth_drop_Suc)
  then show ?thesis using assms(2) by (simp add: iterate_forward_eq)
qed

lemma collectChecks_head:
  assumes "h < length doc" and "isListItemBlock (doc ! h)"
  shows "(h, checkBlock ed names doc changed
               (setAt [] (listIndentOf (doc ! h)) (filter (\<lambda>a. fst a \<in> set names) (attrs (doc ! h))))
               (getListItemBlocks doc h Forward) h)
           \<in> set (collectChecks ed names doc h changed)"
proof -
  from iterate_forward_Cons[OF assms] obtain rest
    where it: "iterateSiblingListBlocks doc h Forward = (h, doc ! h) # rest" by blast
  have "walkList doc ((h, doc ! h) # rest)" using walkList_iterate[of doc h] it by simp
  from walkList_blocks[OF this] have "h \<in> set (getListItemBlocks doc h Forward)" by simp
  then show ?thesis by (simp add: collectChecks_def it Let_def)
qed

lemma collectChecks_unique:
  "(b, r) \<in> set (collectChecks ed names doc h changed) \<Longrightarrow>
   (b, r') \<in> set (collectChecks ed names doc h changed) \<Longrightarrow> r = r'"
  using collectChecks_distinct[of ed names doc h changed] by (meson eq_key_imp_eq_value)

lemma collectChecks_in_run:
  "(b, r) \<in> set (collectChecks ed names doc h changed) \<Longrightarrow>
     b \<in> fst ` set (iterateSiblingListBlocks doc h Forward)"
  using collectChecks_distinct[of ed names doc h changed] by force

lemma in_run_listItem:
  "b \<in> fst ` set (iterateSiblingListBlocks doc h Forward) \<Longrightarrow> isListItemBlock (doc ! b)"
  using iterate_forward_set by fastforce

lemma run_contains_head:
  assumes "h < length doc" and "isListItemBlock (doc ! h)"
  shows "h \<in> fst ` set (iterateSiblingListBlocks doc h Forward)"
  using iterate_forward_Cons[OF assms] by force

lemma scan_removal:
  assumes key: "attributeKey \<in> set attributeNames"
  shows "scanChanges ed attributeNames doc [AttributeEntry start attributeKey old None] =
     pushIfRequired ed attributeNames doc (nodeAfter doc start)
       (addListHead doc (start + 1)
          (addListHead doc start \<lparr>itemToListHead = [], changedItems = [], itemsToRefresh = []\<rparr>))"
  using key by (simp add: scanChanges_def Let_def)

lemma removal_scenario:
  assumes key: "attributeKey \<in> set attributeNames"
    and plain: "\<not> isListItemBlock (doc ! start)"
    and len: "Suc start < length doc"
    and next_item: "isListItemBlock (doc ! Suc start)"
    and run: "reconvertItemsOnDataChange ed attributeNames doc
                [AttributeEntry start attributeKey old None] = Some items"
  shows "(start \<in> set items \<longleftrightarrow> doesItemBlockRequiresRefresh ed attributeNames doc start None) \<and>
         (Suc start \<in> set items \<longleftrightarrow>
            checkBlock ed attributeNames doc []
              (setAt [] (listIndentOf (doc ! Suc start))
                 (filter (\<lambda>a. fst a \<in> set attributeNames) (attrs (doc ! Suc start))))
              (getListItemBlocks doc (Suc start) Forward) (Suc start) = Some True)"
proof -
  let ?st = "scanChanges ed attributeNames doc [AttributeEntry start attributeKey old None]"
  let ?check = "checkBlock ed attributeNames doc []
              (setAt [] (listIndentOf (doc ! Suc start))
                 (filter (\<lambda>a. fst a \<in> set attributeNames) (attrs (doc ! Suc start))))
              (getListItemBlocks doc (Suc start) Forward) (Suc start)"
  from len have sl: "start < length doc" by simp
  have changed: "changedItems ?st = []"
    unfolding scan_removal[OF key]
    by (simp add: pushIfRequired_def addListHead_def split: option.splits)
  have refresh: "itemsToRefresh ?st =
      (if doesItemBlockRequiresRefresh ed attributeNames doc start None then [start] else [])"
    unfolding scan_removal[OF key] using sl
    by (simp add: pushIfRequired_def addListHead_def nodeAfter_def)
  have heads: "itemToListHead ?st =
      findAndAddListHeadToMap doc (Suc start) (findAndAddListHeadToMap doc start [])"
    unfolding scan_removal[OF key]
    by (simp add: pushIfRequired_def addListHead_def split: option.splits)
  have recorded: "Suc start \<in> snd ` set (itemToListHead ?st)"
    unfolding heads
    using findAndAdd_records[OF listHeadAt_after_plain[OF plain len next_item]] by blast
  have ok: "headsOk doc (itemToListHead ?st)" by (rule scanChanges_headsOk)
  have own_head: "isRunHead doc (Suc start)"
    using plain len next_item by (simp add: isRunHead_def)
  note set_items = reconvert_set[OF run, unfolded changed]
  have first: "(Suc start, ?check) \<in> set (collectChecks ed attributeNames doc (Suc start) [])"
    using collectChecks_head[OF len next_item] .
  have a: "start \<in> set items \<longleftrightarrow> doesItemBlockRequiresRefresh ed attributeNames doc start None"
  proof
    assume "start \<in> set items"
    with set_items have "start \<in> set (itemsToRefresh ?st) \<or>
        (\<exists>h. (start, Some True) \<in> set (collectChecks ed attributeNames doc h []))"
      by auto
    moreover have "\<not> (\<exists>h. (start, Some True) \<in> set (collectChecks ed attributeNames doc h []))"
      using collectChecks_in_run in_run_listItem plain by blast
    ultimately show "doesItemBlockRequiresRefresh ed attributeNames doc start None"
      unfolding refresh by (simp split: if_splits)
  next
    assume "doesItemBlockRequiresRefresh ed attributeNames doc start None"
    with refresh set_items show "start \<in> set items" by simp
  qed
  have b: "Suc start \<in> set items \<longleftrightarrow> ?check = Some True"
  proof
    assume "Suc start \<in> set items"
    moreover have "Suc start \<notin> set (itemsToRefresh ?st)" unfolding refresh by simp
    ultimately obtain h where h: "h \<in> snd ` set (itemToListHead ?st)"
      and c: "(Suc start, Some True) \<in> set (collectChecks ed attributeNames doc h [])"
      using set_items by auto
    from h ok have hr: "isRunHead doc h" by (auto simp: headsOk_def)
    have "h = Suc start"
    proof (rule ccontr)
      assume "h \<noteq> Suc start"
      from runs_disjoint[OF hr own_head this] collectChecks_in_run[OF c]
        run_contains_head[OF len next_item]
      show False by blast
    qed
    with c first show "?check = Some True" using collectChecks_unique by metis
  next
    assume "?check = Some True"
    with first have "(Suc start, Some True) \<in>
        set (collectChecks ed attributeNames doc (Suc start) [])" by simp
    with recorded have "Suc start \<in> {b. \<exists>h \<in> snd ` set (itemToListHead ?st).
        (b, Some True) \<in> set (collectChecks ed attributeNames doc h [])}" by blast
    with set_items show "Suc start \<in> set items" by blast
  qed
  from a b show ?thesis ..
qed

subsection \<open>C3: what a change of a list attribute records\<close>

text \<open>
  C3. For a differ entry that changes a recognized list attribute, the scan records the list
  head found at the start of the entry's range (the head of the run of list blocks that ends
  before the block, or the block itself when it starts one). When the new value is absent it
  also records the head found at the position after the block, and pushes the block itself
  onto the items to refresh when its bogus paragraph check asks for it; otherwise the block
  joins the changed items. So when \<^verbatim>\<open>listItemId\<close> is removed from a block that is followed by a
  list block, the following block is recorded as a list head, and in the run for that entry
  both blocks are checked: the block is refreshed exactly when its bogus paragraph check asks
  for it, the following block exactly when its first check in the walk does.
\<close>

theorem scanEntry_list_attribute:
  assumes key: "attributeKey \<in> set attributeNames"
  shows
    "itemToListHead (scanEntry ed attributeNames doc (AttributeEntry start attributeKey old new) st) =
       (if new = None
        then findAndAddListHeadToMap doc (start + 1)
               (findAndAddListHeadToMap doc start (itemToListHead st))
        else findAndAddListHeadToMap doc start (itemToListHead st)) \<and>
     itemsToRefresh (scanEntry ed attributeNames doc (AttributeEntry start attributeKey old new) st) =
       (if new = None \<and> start < length doc \<and>
           doesItemBlockRequiresRefresh ed attributeNames doc start None
        then itemsToRefresh st @ [start] else itemsToRefresh st) \<and>
     changedItems (scanEntry ed attributeNames doc (AttributeEntry start attributeKey old new) st) =
       (if new \<noteq> None \<and> start < length doc then changedItems st @ [start] else changedItems st) \<and>
     (\<forall>item h. listHeadAt doc start = Some (item, h) \<longrightarrow>
        isRunHead doc h \<and>
        h \<in> snd ` set (itemToListHead
                 (scanEntry ed attributeNames doc (AttributeEntry start attributeKey old new) st))) \<and>
     (new = None \<longrightarrow>
        (\<forall>item h. listHeadAt doc (start + 1) = Some (item, h) \<longrightarrow>
           isRunHead doc h \<and>
           h \<in> snd ` set (itemToListHead
                    (scanEntry ed attributeNames doc (AttributeEntry start attributeKey old new) st)))) \<and>
     (\<not> isListItemBlock (doc ! start) \<and> Suc start < length doc \<and> isListItemBlock (doc ! Suc start) \<longrightarrow>
        listHeadAt doc (start + 1) = Some (Suc start, Suc start) \<and>
        (\<forall>items. reconvertItemsOnDataChange ed attributeNames doc
                   [AttributeEntry start attributeKey old None] = Some items \<longrightarrow>
           (start \<in> set items \<longleftrightarrow> doesItemBlockRequiresRefresh ed attributeNames doc start None) \<and>
           (Suc start \<in> set items \<longleftrightarrow>
              checkBlock ed attributeNames doc []
                (setAt [] (listIndentOf (doc ! Suc start))
                   (filter (\<lambda>a. fst a \<in> set attributeNames) (attrs (doc ! Suc start))))
                (getListItemBlocks doc (Suc start) Forward) (Suc start) = Some True)))"
proof -
  let ?st' = "scanEntry ed attributeNames doc (AttributeEntry start attributeKey old new) st"
  have heads: "itemToListHead ?st' =
       (if new = None
        then findAndAddListHeadToMap doc (start + 1)
               (findAndAddListHeadToMap doc start (itemToListHead st))
        else findAndAddListHeadToMap doc start (itemToListHead st))"
    using key
    by (simp add: Let_def addListHead_def pushIfRequired_def addChanged_def split: option.splits)
  have refresh: "itemsToRefresh ?st' =
       (if new = None \<and> start < length doc \<and>
           doesItemBlockRequiresRefresh ed attributeNames doc start None
        then itemsToRefresh st @ [start] else itemsToRefresh st)"
    using key
    by (simp add: Let_def addListHead_def pushIfRequired_def addChanged_def nodeAfter_def)
  have changed: "changedItems ?st' =
       (if new \<noteq> None \<and> start < length doc then changedItems st @ [start] else changedItems st)"
    using key
    by (simp add: Let_def addListHead_def pushIfRequired_def addChanged_def nodeAfter_def)
  have at_start: "\<forall>item h. listHeadAt doc start = Some (item, h) \<longrightarrow>
        isRunHead doc h \<and> h \<in> snd ` set (itemToListHead ?st')"
  proof (intro allI impI)
    fix item h assume l: "listHeadAt doc start = Some (item, h)"
    have rec: "h \<in> snd ` set (findAndAddListHeadToMap doc start (itemToListHead st))"
      using findAndAdd_records[OF l] .
    moreover have "set (findAndAddListHeadToMap doc start (itemToListHead st)) \<subseteq>
        set (findAndAddListHeadToMap doc (start + 1)
               (findAndAddListHeadToMap doc start (itemToListHead st)))"
      by (rule findAndAdd_mono)
    ultimately have "h \<in> snd ` set (itemToListHead ?st')" unfolding heads by auto
    with listHeadAt_head[OF l] show "isRunHead doc h \<and> h \<in> snd ` set (itemToListHead ?st')" ..
  qed
  have after: "new = None \<longrightarrow>
        (\<forall>item h. listHeadAt doc (start + 1) = Some (item, h) \<longrightarrow>
           isRunHead doc h \<and> h \<in> snd ` set (itemToListHead ?st'))"
  proof (intro allI impI)
    fix item h assume n: "new = None" and l: "listHeadAt doc (start + 1) = Some (item, h)"
    from findAndAdd_records[OF l] n
    have "h \<in> snd ` set (itemToListHead ?st')" unfolding heads by simp
    with listHeadAt_head[OF l] show "isRunHead doc h \<and> h \<in> snd ` set (itemToListHead ?st')" ..
  qed
  have scenario: "\<not> isListItemBlock (doc ! start) \<and> Suc start < length doc \<and>
        isListItemBlock (doc ! Suc start) \<longrightarrow>
        listHeadAt doc (start + 1) = Some (Suc start, Suc start) \<and>
        (\<forall>items. reconvertItemsOnDataChange ed attributeNames doc
                   [AttributeEntry start attributeKey old None] = Some items \<longrightarrow>
           (start \<in> set items \<longleftrightarrow> doesItemBlockRequiresRefresh ed attributeNames doc start None) \<and>
           (Suc start \<in> set items \<longleftrightarrow>
              checkBlock ed attributeNames doc []
                (setAt [] (listIndentOf (doc ! Suc start))
                   (filter (\<lambda>a. fst a \<in> set attributeNames) (attrs (doc ! Suc start))))
                (getListItemBlocks doc (Suc start) Forward) (Suc start) = Some True))"
    using listHeadAt_after_plain[of doc start] removal_scenario[OF key, of doc start ed old]
    by simp
  from heads refresh changed at_start after scenario show ?thesis by (intro conjI)
qed

theorem scanEntry_list_attribute_witness:
  "''listItemId'' \<in> set listAttributeNames \<and>
   \<not> isListItemBlock (removalDoc ! 1) \<and> Suc 1 < length removalDoc \<and>
   isListItemBlock (removalDoc ! Suc 1) \<and>
   reconvertItemsOnDataChange (exampleEditing (\<lambda>i. ''span'')) listAttributeNames removalDoc
     [listItemIdRemoval 1] = Some [1, 2] \<and>
   map snd (itemToListHead (scanChanges (exampleEditing (\<lambda>i. ''span'')) listAttributeNames
              removalDoc [listItemIdRemoval 1])) = [0, 2] \<and>
   doesItemBlockRequiresRefresh (exampleEditing (\<lambda>i. ''span'')) listAttributeNames removalDoc 1
     None \<and>
   checkBlock (exampleEditing (\<lambda>i. ''span'')) listAttributeNames removalDoc []
     (setAt [] (listIndentOf (removalDoc ! Suc 1))
        (filter (\<lambda>a. fst a \<in> set listAttributeNames) (attrs (removalDoc ! Suc 1))))
     (getListItemBlocks removalDoc (Suc 1) Forward) (Suc 1) = Some True"
proof -
  have key: "''listItemId'' \<in> set listAttributeNames" by code_simp
  have plain: "\<not> isListItemBlock (removalDoc ! 1)" by code_simp
  have len: "Suc 1 < length removalDoc" by code_simp
  have next_item: "isListItemBlock (removalDoc ! Suc 1)" by code_simp
  have run: "reconvertItemsOnDataChange (exampleEditing (\<lambda>i. ''span'')) listAttributeNames
     removalDoc [AttributeEntry 1 ''listItemId'' (Some (VStr ''b'')) None] = Some [1, 2]"
    by code_simp
  have heads: "map snd (itemToListHead (scanChanges (exampleEditing (\<lambda>i. ''span''))
      listAttributeNames removalDoc [listItemIdRemoval 1])) = [0, 2]"
    by code_simp
  from scanEntry_list_attribute [OF key, where doc = removalDoc and start = 1
      and ed = "exampleEditing (\<lambda>i. ''span'')" and old = "Some (VStr ''b'')" and new = None]
    plain len next_item run
  have "(1 \<in> set [1, 2::nat] \<longleftrightarrow>
           doesItemBlockRequiresRefresh (exampleEditing (\<lambda>i. ''span'')) listAttributeNames
             removalDoc 1 None) \<and>
        (Suc 1 \<in> set [1, 2::nat] \<longleftrightarrow>
           checkBlock (exampleEditing (\<lambda>i. ''span'')) listAttributeNames removalDoc []
             (setAt [] (listIndentOf (removalDoc ! Suc 1))
                (filter (\<lambda>a. fst a \<in> set listAttributeNames) (attrs (removalDoc ! Suc 1))))
             (getListItemBlocks removalDoc (Suc 1) Forward) (Suc 1) = Some True)"
    by blast
  then have checks: "doesItemBlockRequiresRefresh (exampleEditing (\<lambda>i. ''span''))
        listAttributeNames removalDoc 1 None \<and>
      checkBlock (exampleEditing (\<lambda>i. ''span'')) listAttributeNames removalDoc []
        (setAt [] (listIndentOf (removalDoc ! Suc 1))
           (filter (\<lambda>a. fst a \<in> set listAttributeNames) (attrs (removalDoc ! Suc 1))))
        (getListItemBlocks removalDoc (Suc 1) Forward) (Suc 1) = Some True"
    by simp
  from key plain len next_item run[folded listItemIdRemoval_def] heads checks
  show ?thesis by (intro conjI) blast+
qed

subsection \<open>C6: upcast, then downcast\<close>

lemma getIndent_list: "getIndent \<lparr>viewAncestors = listNameOf k # ancestors\<rparr> = liDepth ancestors"
  by (cases k) (simp_all add: getIndent_def liDepth_def listNameOf_def)

lemma parentIs_list:
  "(if parentIs \<lparr>viewAncestors = listNameOf k # ancestors\<rparr> ''ol'' then VStr ''numbered''
    else VStr ''bulleted'') = listTypeOf k"
  by (cases k) (simp_all add: parentIs_def listNameOf_def listTypeOf_def)

lemma enc_has_id:
  "(\<forall>x \<in> set (encItems uid k d anc its c). hasAttribute (fst x) ''listItemId'')"
  "(\<forall>x \<in> set (encItem uid k d anc it c). hasAttribute (fst x) ''listItemId'')"
  "hasAttribute (fst own) ''listItemId'' \<Longrightarrow>
     (\<forall>x \<in> set (encContents uid d own cs c). hasAttribute (fst x) ''listItemId'')"
  by (induction uid k d anc its c and uid k d anc it c and uid d own cs c
      rule: encItems_encItem_encContents.induct)
     (auto simp: Let_def itemBlock_def hasAttribute_def getAttribute_def)

lemma fill_contents:
  assumes "\<not> hasAttribute n ''listItemId''"
  shows "map (\<lambda>x. if \<not> hasAttribute x ''listItemId'' then f x else x)
           (map fst (encContents uid d (n, ch) cs c)) =
         map fst (encContents uid d (f n, ch) cs c)"
proof (induction cs arbitrary: c)
  case Nil
  then show ?case by simp
next
  case (Cons x cs)
  show ?case
  proof (cases x)
    case Block
    with Cons assms show ?thesis by simp
  next
    case (Nested k its)
    have "map (\<lambda>x. if \<not> hasAttribute x ''listItemId'' then f x else x)
            (map fst (encItems uid k (Suc d) ch its c)) = map fst (encItems uid k (Suc d) ch its c)"
      using enc_has_id(1)[of uid k "Suc d" ch its c] by (intro map_idI) auto
    with Cons Nested show ?thesis by simp
  qed
qed

lemma setListAttributes_range:
  "s \<le> length ns \<Longrightarrow>
   setListAttributes a [s..<length ns] ns =
     take s ns @ map (\<lambda>x. if \<not> hasAttribute x ''listItemId'' then setAttributes a x else x) (drop s ns)"
proof (rule nth_equalityI)
  show "length (setListAttributes a [s..<length ns] ns) =
    length (take s ns @ map (\<lambda>x. if \<not> hasAttribute x ''listItemId'' then setAttributes a x else x)
      (drop s ns))"
    by (simp add: setListAttributes_length)
next
  fix i assume "i < length (setListAttributes a [s..<length ns] ns)"
  then have i: "i < length ns" by (simp add: setListAttributes_length)
  have "setListAttributes a [s..<length ns] ns ! i =
     (if i \<in> set [s..<length ns] \<and> \<not> hasAttribute (ns ! i) ''listItemId''
      then setAttributes a (ns ! i) else ns ! i)"
    using i by (intro setListAttributes_nth) auto
  then show "setListAttributes a [s..<length ns] ns ! i =
      (take s ns @ map (\<lambda>x. if \<not> hasAttribute x ''listItemId'' then setAttributes a x else x)
      (drop s ns)) ! i"
    using i by (auto simp: nth_append)
qed

lemma upcastItems_all:
  "(\<And>n. chk n ''listItemId'') \<Longrightarrow> upcastItems chk ns (s, e) = [s..<e]"
  by (simp add: upcastItems_def)

lemma converter_fills:
  assumes chk: "\<And>n. chk n ''listItemId''"
    and ns: "modelNodes st = pre @ paragraphBlock # rest"
  shows "uidCounter (listItemUpcastConverter chk uid \<lparr>viewAncestors = listNameOf k # ancestors\<rparr>
           (Some (length pre, length (modelNodes st))) st) = Suc (uidCounter st) \<and>
         modelNodes (listItemUpcastConverter chk uid \<lparr>viewAncestors = listNameOf k # ancestors\<rparr>
           (Some (length pre, length (modelNodes st))) st) =
           pre @
              map (\<lambda>x. if \<not> hasAttribute x ''listItemId''
                       then setAttributes [(''listItemId'', VStr (uid (uidCounter st))),
                              (''listIndent'', VNum (liDepth ancestors)),
                              (''listType'', listTypeOf k)] x
                       else x) (paragraphBlock # rest)"
proof -
  let ?s = "length pre"
  let ?e = "length (modelNodes st)"
  have items: "upcastItems chk (modelNodes st) (?s, ?e) = [?s..<?e]"
    using chk by (rule upcastItems_all)
  have lt: "?s < ?e" using ns by simp
  then have ne: "upcastItems chk (modelNodes st) (?s, ?e) \<noteq> []" unfolding items by auto
  have first: "[?s..<?e] ! 0 = ?s" using lt by simp
  have at: "modelNodes st ! ?s = paragraphBlock" using ns by simp
  have ty: "upcastListType \<lparr>viewAncestors = listNameOf k # ancestors\<rparr> paragraphBlock = listTypeOf k"
    using parentIs_list[of k ancestors]
    by (simp add: upcastListType_def Let_def paragraphBlock_def getAttribute_def)
  have set: "setListAttributes [(''listItemId'', VStr (uid (uidCounter st))),
                              (''listIndent'', VNum (liDepth ancestors)),
                              (''listType'', listTypeOf k)] [?s..<?e] (modelNodes st) =
      pre @ map (\<lambda>x. if \<not> hasAttribute x ''listItemId''
                       then setAttributes [(''listItemId'', VStr (uid (uidCounter st))),
                              (''listIndent'', VNum (liDepth ancestors)),
                              (''listType'', listTypeOf k)] x
                       else x) (paragraphBlock # rest)"
    using setListAttributes_range[of ?s "modelNodes st"] ns by simp
  show ?thesis
    unfolding listItemUpcastConverter_unfold[OF ne]
    by (simp add: Let_def items first at ty getIndent_list set del: upt_Suc)
qed

lemma fill_paragraph:
  "setAttributes [(''listItemId'', VStr i), (''listIndent'', VNum d), (''listType'', t)]
     paragraphBlock = itemBlock i d t"
  by (simp add: setAttributes_def paragraphBlock_def itemBlock_def)

lemma paragraph_no_id: "\<not> hasAttribute paragraphBlock ''listItemId''"
  by (simp add: paragraphBlock_def hasAttribute_def getAttribute_def)

lemma liDepth_simps:
  "liDepth (''li'' # xs) = Suc (liDepth xs)" "liDepth (listNameOf k # xs) = liDepth xs"
  by (cases k; simp add: liDepth_def listNameOf_def)+

lemma convert_enc:
  "(\<forall>n. chk n ''listItemId'') \<longrightarrow>
     uidCounter (convertItems chk uid k ancestors its st) = uidCounter st + countItems its \<and>
     modelNodes (convertItems chk uid k ancestors its st) =
       modelNodes st @ map fst (encItems uid k (liDepth ancestors) anc its (uidCounter st))"
  "(\<forall>n. chk n ''listItemId'') \<longrightarrow>
     uidCounter (convertItem chk uid k ancestors it st) = uidCounter st + countItem it \<and>
     modelNodes (convertItem chk uid k ancestors it st) =
       modelNodes st @ map fst (encItem uid k (liDepth ancestors) anc it (uidCounter st))"
  "(\<forall>n. chk n ''listItemId'') \<longrightarrow> liDepth ancestors' = Suc d \<longrightarrow>
     uidCounter (convertContents chk uid ancestors' cs st) = uidCounter st + countContents cs \<and>
     modelNodes (convertContents chk uid ancestors' cs st) =
       modelNodes st @ map fst (encContents uid d (paragraphBlock, ch) cs (uidCounter st))"
proof (induction chk uid k ancestors its st and chk uid k ancestors it st
         and chk uid ancestors' cs st arbitrary: anc and anc and ch d
       rule: convertItems_convertItem_convertContents.induct)
  case (1 chk uid k ancestors st)
  then show ?case by simp
next
  case (2 chk uid k ancestors it its st)
  show ?case
  proof
    assume c: "\<forall>n. chk n ''listItemId''"
    from 2(1)[of anc] c
    have a: "uidCounter (convertItem chk uid k ancestors it st) = uidCounter st + countItem it"
      and b: "modelNodes (convertItem chk uid k ancestors it st) =
       modelNodes st @ map fst (encItem uid k (liDepth ancestors) anc it (uidCounter st))"
      by simp_all
    from 2(2)[of anc] c a b
    show "uidCounter (convertItems chk uid k ancestors (it # its) st) =
            uidCounter st + countItems (it # its) \<and>
          modelNodes (convertItems chk uid k ancestors (it # its) st) =
            modelNodes st @
            map fst (encItems uid k (liDepth ancestors) anc (it # its) (uidCounter st))"
      by (simp add: add.assoc)
  qed
next
  case (3 chk uid k ancestors cs st)
  show ?case
  proof
    assume c: "\<forall>n. chk n ''listItemId''"
    let ?st1 = "appendBlock st"
    let ?st' = "convertContents chk uid (''li'' # listNameOf k # ancestors) cs ?st1"
    let ?d = "liDepth ancestors"
    let ?own = "(Some (VStr (uid (uidCounter st + countContents cs))), Some (listTypeOf k)) # anc"
    have depth: "liDepth (''li'' # listNameOf k # ancestors) = Suc ?d"
      by (simp add: liDepth_simps)
    from 3[OF refl, where d = ?d and ch = ?own] c depth
    have cnt: "uidCounter ?st' = uidCounter st + countContents cs"
      and nodes: "modelNodes ?st' = modelNodes st @ paragraphBlock #
          map fst (encContents uid ?d (paragraphBlock, ?own) cs (uidCounter st))"
      by (simp_all add: appendBlock_def paragraphBlock_def)
    have len: "length (modelNodes st) = length (modelNodes st)" by simp
    from converter_fills[of chk ?st' "modelNodes st" _ uid k ancestors, OF _ nodes] c
    have r1: "uidCounter (convertItem chk uid k ancestors (Item cs) st) = Suc (uidCounter ?st')"
      and r2: "modelNodes (convertItem chk uid k ancestors (Item cs) st) =
           modelNodes st @
              map (\<lambda>x. if \<not> hasAttribute x ''listItemId''
                       then setAttributes [(''listItemId'', VStr (uid (uidCounter ?st'))),
                              (''listIndent'', VNum ?d),
                              (''listType'', listTypeOf k)] x
                       else x)
                (paragraphBlock #
                 map fst (encContents uid ?d (paragraphBlock, ?own) cs (uidCounter st)))"
      by (simp_all add: Let_def)
    show "uidCounter (convertItem chk uid k ancestors (Item cs) st) =
            uidCounter st + countItem (Item cs) \<and>
          modelNodes (convertItem chk uid k ancestors (Item cs) st) =
            modelNodes st @ map fst (encItem uid k ?d anc (Item cs) (uidCounter st))"
      unfolding r1 r2 cnt
      using fill_contents[OF paragraph_no_id, of _ uid ?d ?own cs "uidCounter st"]
      by (simp add: Let_def paragraph_no_id fill_paragraph)
  qed
next
  case (4 chk uid ancestors st)
  then show ?case by simp
next
  case (5 chk uid ancestors cs st)
  show ?case
  proof (intro impI)
    assume c: "\<forall>n. chk n ''listItemId''" and d: "liDepth ancestors = Suc d"
    from 5[of d ch] c d show "uidCounter (convertContents chk uid ancestors (Block # cs) st) =
        uidCounter st + countContents (Block # cs) \<and>
      modelNodes (convertContents chk uid ancestors (Block # cs) st) =
        modelNodes st @ map fst (encContents uid d (paragraphBlock, ch) (Block # cs) (uidCounter st))"
      by (simp add: appendBlock_def paragraphBlock_def)
  qed
next
  case (6 chk uid ancestors k its cs st)
  show ?case
  proof (intro impI)
    assume c: "\<forall>n. chk n ''listItemId''" and d: "liDepth ancestors = Suc d"
    from 6(1)[of ch] c d
    have a: "uidCounter (convertItems chk uid k ancestors its st) = uidCounter st + countItems its"
      and b: "modelNodes (convertItems chk uid k ancestors its st) =
        modelNodes st @ map fst (encItems uid k (Suc d) ch its (uidCounter st))"
      by simp_all
    from 6(2)[of d ch] c d a b
    show "uidCounter (convertContents chk uid ancestors (Nested k its # cs) st) =
        uidCounter st + countContents (Nested k its # cs) \<and>
      modelNodes (convertContents chk uid ancestors (Nested k its # cs) st) =
        modelNodes st @
        map fst (encContents uid d (paragraphBlock, ch) (Nested k its # cs) (uidCounter st))"
      by (simp add: add.assoc)
  qed
qed

lemma find_rev_enumerate:
  "(List.find (\<lambda>p. Q (snd p)) (rev (enumerate 0 xs)) = None \<longrightarrow>
      dropWhile (\<lambda>x. \<not> Q x) (rev xs) = []) \<and>
   (\<forall>g n. List.find (\<lambda>p. Q (snd p)) (rev (enumerate 0 xs)) = Some (g, n) \<longrightarrow>
      g < length xs \<and> dropWhile (\<lambda>x. \<not> Q x) (rev xs) = xs ! g # rev (take g xs))"
proof (induction xs rule: rev_induct)
  case Nil
  then show ?case by simp
next
  case (snoc y ys)
  have e: "rev (enumerate 0 (ys @ [y])) = (length ys, y) # rev (enumerate 0 ys)"
    by (simp add: enumerate_append_eq)
  show ?case
  proof (cases "Q y")
    case True
    then show ?thesis unfolding e by simp
  next
    case False
    with snoc show ?thesis unfolding e by (auto simp: nth_append)
  qed
qed

lemma backward_all:
  assumes "\<forall>n \<in> set doc. isListItemBlock n" and "j < length doc"
  shows "iterateSiblingListBlocks doc j Backward = rev (enumerate 0 (take (Suc j) doc))"
proof -
  have "\<forall>p \<in> set (rev (take (Suc j) (enumerate 0 doc))). isListItemBlock (snd p)"
    using assms(1) by (auto simp: in_set_enumerate_eq dest!: in_set_takeD)
  then have "takeWhile (\<lambda>p. isListItemBlock (snd p)) (rev (take (Suc j) (enumerate 0 doc))) =
      rev (take (Suc j) (enumerate 0 doc))"
    by (simp add: takeWhile_eq_all_conv)
  then show ?thesis using assms(2) by (simp add: iterateSiblingListBlocks_def take_enumerate0)
qed

lemma firstLowerIndent_dropWhile:
  assumes all: "\<forall>n \<in> set doc. isListItemBlock n" and i: "i < length doc"
  shows "(firstLowerIndent doc i = None \<longrightarrow>
            dropWhile (\<lambda>x. listIndentOf (doc ! i) \<le> listIndentOf x) (rev (take i doc)) = []) \<and>
         (\<forall>g. firstLowerIndent doc i = Some g \<longrightarrow>
            g < i \<and>
            dropWhile (\<lambda>x. listIndentOf (doc ! i) \<le> listIndentOf x) (rev (take i doc)) =
              doc ! g # rev (take g doc))"
proof (cases i)
  case 0
  then show ?thesis by (simp add: firstLowerIndent_def)
next
  case (Suc j)
  with i have j: "j < length doc" by simp
  let ?Q = "\<lambda>x. listIndentOf x < listIndentOf (doc ! i)"
  have f: "firstLowerIndent doc i =
      map_option fst (List.find (\<lambda>p. ?Q (snd p)) (rev (enumerate 0 (take i doc))))"
    using i Suc backward_all[OF all j] by (simp add: firstLowerIndent_def)
  have nq: "(\<lambda>x. \<not> ?Q x) = (\<lambda>x. listIndentOf (doc ! i) \<le> listIndentOf x)"
    by (auto simp: not_less)
  note fr = find_rev_enumerate[of ?Q "take i doc", unfolded nq]
  show ?thesis
  proof (intro conjI impI allI)
    assume "firstLowerIndent doc i = None"
    with f fr show "dropWhile (\<lambda>x. listIndentOf (doc ! i) \<le> listIndentOf x) (rev (take i doc)) = []"
      by simp
  next
    fix g assume "firstLowerIndent doc i = Some g"
    with f have "map_option fst (List.find (\<lambda>p. ?Q (snd p)) (rev (enumerate 0 (take i doc)))) =
        Some g" by simp
    then obtain p where "List.find (\<lambda>p. ?Q (snd p)) (rev (enumerate 0 (take i doc))) = Some p"
      and "fst p = g" by auto
    then obtain n where "List.find (\<lambda>p. ?Q (snd p)) (rev (enumerate 0 (take i doc))) = Some (g, n)"
      by (cases p) auto
    with fr have g: "g < length (take i doc)"
      and d: "dropWhile (\<lambda>x. listIndentOf (doc ! i) \<le> listIndentOf x) (rev (take i doc)) =
                take i doc ! g # rev (take g (take i doc))"
      by blast+
    from g i have gi: "g < i" by simp
    with d show "g < i" "dropWhile (\<lambda>x. listIndentOf (doc ! i) \<le> listIndentOf x) (rev (take i doc)) =
              doc ! g # rev (take g doc)"
      by (simp_all add: min_def)
  qed
qed

lemma governing_chainRev:
  assumes all: "\<forall>n \<in> set doc. isListItemBlock n"
  shows "i < length doc \<Longrightarrow>
         map (\<lambda>p. doc ! snd p) (governingBlocks doc l i) = chainRev (rev (take i doc)) (doc ! i) l"
proof (induction l arbitrary: i)
  case 0
  then show ?case by simp
next
  case (Suc l)
  note fl = firstLowerIndent_dropWhile[OF all Suc.prems]
  show ?case
  proof (cases "firstLowerIndent doc i")
    case None
    with fl have "dropWhile (\<lambda>x. listIndentOf (doc ! i) \<le> listIndentOf x) (rev (take i doc)) = []"
      by blast
    with None show ?thesis by (simp del: dropWhile_eq_Nil_conv)
  next
    case (Some g)
    with fl have gi: "g < i"
      and d: "dropWhile (\<lambda>x. listIndentOf (doc ! i) \<le> listIndentOf x) (rev (take i doc)) =
              doc ! g # rev (take g doc)"
      by blast+
    from gi Suc.prems have "g < length doc" by simp
    from Suc.IH[OF this] Some d show ?thesis by simp
  qed
qed

lemma chainsOk_append:
  "chainsOk ctx (A @ B) = (chainsOk ctx A \<and> chainsOk (rev (map fst A) @ ctx) B)"
  by (induction A arbitrary: ctx) auto

lemma chainsOk_nth:
  "chainsOk ctx L \<Longrightarrow> i < length L \<Longrightarrow>
     map proj (chainRev (rev (take i (map fst L)) @ ctx) (fst (L ! i)) (listIndentOf (fst (L ! i)))) =
       snd (L ! i)"
proof (induction L arbitrary: ctx i)
  case Nil
  then show ?case by simp
next
  case (Cons x xs)
  show ?case
  proof (cases i)
    case 0
    with Cons.prems show ?thesis by simp
  next
    case (Suc j)
    with Cons.prems have "chainsOk (fst x # ctx) xs" "j < length xs" by simp_all
    from Cons.IH[OF this] Suc show ?thesis by simp
  qed
qed

lemma ctxChain_0: "ctxChain ctx 0 = []"
proof -
  have "dropWhile (\<lambda>x. 0 \<le> listIndentOf x) ctx = []" by simp
  then show ?thesis unfolding ctxChain_def by (simp only: list.case)
qed

lemma own_chain:
  "map proj (chainRev ctx b (listIndentOf b)) = proj b # ctxChain ctx (listIndentOf b)"
proof (cases "listIndentOf b")
  case 0
  then show ?thesis by (simp add: ctxChain_0)
next
  case (Suc l)
  show ?thesis
    unfolding Suc chainRev.simps ctxChain_def
    by (cases "dropWhile (\<lambda>x. Suc l \<le> listIndentOf x) ctx")
       (simp_all only: Suc list.case list.map diff_Suc_1)
qed

lemma ctxChain_skip:
  "\<forall>x \<in> set xs. d \<le> listIndentOf x \<Longrightarrow> ctxChain (xs @ ctx) d = ctxChain ctx d"
  by (simp add: ctxChain_def dropWhile_append)

lemma ctxChain_own:
  "listIndentOf b = d \<Longrightarrow> ctxChain (b # ctx) (Suc d) = proj b # ctxChain ctx d"
  using own_chain[of ctx b] by (simp add: ctxChain_def)

lemma itemBlock_facts:
  "listIndentOf (itemBlock i d t) = d"
  "proj (itemBlock i d t) = (Some (VStr i), Some t)"
  "kind (itemBlock i d t) = ElementNode"
  by (simp_all add: itemBlock_def listIndentOf_def proj_def getAttribute_def)

lemma enc_chains:
  "ctxChain ctx d = anc \<longrightarrow>
     chainsOk ctx (encItems uid k d anc its c) \<and>
     (\<forall>x \<in> set (encItems uid k d anc its c). d \<le> listIndentOf (fst x))"
  "ctxChain ctx d = anc \<longrightarrow>
     chainsOk ctx (encItem uid k d anc it c) \<and>
     (\<forall>x \<in> set (encItem uid k d anc it c). d \<le> listIndentOf (fst x))"
  "listIndentOf (fst own) = d \<and> proj (fst own) # ctxChain ctx d = snd own \<and>
   ctxChain ctx (Suc d) = snd own \<longrightarrow>
     chainsOk ctx (encContents uid d own cs c) \<and>
     (\<forall>x \<in> set (encContents uid d own cs c). d \<le> listIndentOf (fst x))"
proof (induction uid k d anc its c and uid k d anc it c and uid d own cs c
         arbitrary: ctx and ctx and ctx rule: encItems_encItem_encContents.induct)
  case (1 uid k d anc c)
  then show ?case by simp
next
  case (2 uid k d anc it its c)
  show ?case
  proof
    assume a: "ctxChain ctx d = anc"
    from 2(1)[of ctx] a have A: "chainsOk ctx (encItem uid k d anc it c)"
      and Ai: "\<forall>x \<in> set (encItem uid k d anc it c). d \<le> listIndentOf (fst x)" by simp_all
    let ?ctx' = "rev (map fst (encItem uid k d anc it c)) @ ctx"
    have "ctxChain ?ctx' d = anc" using Ai a by (simp add: ctxChain_skip)
    with 2(2)[of ?ctx'] have B: "chainsOk ?ctx' (encItems uid k d anc its (c + countItem it))"
      and Bi: "\<forall>x \<in> set (encItems uid k d anc its (c + countItem it)). d \<le> listIndentOf (fst x)"
      by simp_all
    from A Ai B Bi
    show "chainsOk ctx (encItems uid k d anc (it # its) c) \<and>
          (\<forall>x \<in> set (encItems uid k d anc (it # its) c). d \<le> listIndentOf (fst x))"
      by (auto simp: chainsOk_append)
  qed
next
  case (3 uid k d anc cs c)
  show ?case
  proof
    assume a: "ctxChain ctx d = anc"
    let ?b = "itemBlock (uid (c + countContents cs)) d (listTypeOf k)"
    let ?ch = "(Some (VStr (uid (c + countContents cs))), Some (listTypeOf k)) # anc"
    have own: "map proj (chainRev ctx ?b (listIndentOf ?b)) = ?ch"
      unfolding own_chain using a by (simp add: itemBlock_facts)
    have h1: "proj ?b # ctxChain (?b # ctx) d = ?ch"
      using a ctxChain_skip[of "[?b]" d ctx] by (simp add: itemBlock_facts)
    have h2: "ctxChain (?b # ctx) (Suc d) = ?ch"
      using a by (simp add: ctxChain_own itemBlock_facts)
    from 3[OF refl, of "?b # ctx"] h1 h2
    have C: "chainsOk (?b # ctx) (encContents uid d (?b, ?ch) cs c)"
      and Ci: "\<forall>x \<in> set (encContents uid d (?b, ?ch) cs c). d \<le> listIndentOf (fst x)"
      by (simp_all add: itemBlock_facts)
    from own C Ci
    show "chainsOk ctx (encItem uid k d anc (Item cs) c) \<and>
          (\<forall>x \<in> set (encItem uid k d anc (Item cs) c). d \<le> listIndentOf (fst x))"
      by (simp add: Let_def itemBlock_facts)
  qed
next
  case (4 uid d own c)
  then show ?case by simp
next
  case (5 uid d own cs c)
  show ?case
  proof
    assume h: "listIndentOf (fst own) = d \<and> proj (fst own) # ctxChain ctx d = snd own \<and>
               ctxChain ctx (Suc d) = snd own"
    then have own: "map proj (chainRev ctx (fst own) (listIndentOf (fst own))) = snd own"
      unfolding own_chain by simp
    have h1: "proj (fst own) # ctxChain (fst own # ctx) d = snd own"
      using h ctxChain_skip[of "[fst own]" d ctx] by simp
    have h2: "ctxChain (fst own # ctx) (Suc d) = snd own"
      using h by (simp add: ctxChain_own)
    from 5[of "fst own # ctx"] h h1 h2
    have C: "chainsOk (fst own # ctx) (encContents uid d own cs c)"
      and Ci: "\<forall>x \<in> set (encContents uid d own cs c). d \<le> listIndentOf (fst x)"
      by simp_all
    from own C Ci h
    show "chainsOk ctx (encContents uid d own (Block # cs) c) \<and>
          (\<forall>x \<in> set (encContents uid d own (Block # cs) c). d \<le> listIndentOf (fst x))"
      by simp
  qed
next
  case (6 uid d own k its cs c)
  show ?case
  proof
    assume h: "listIndentOf (fst own) = d \<and> proj (fst own) # ctxChain ctx d = snd own \<and>
               ctxChain ctx (Suc d) = snd own"
    let ?A = "encItems uid k (Suc d) (snd own) its c"
    from 6(1)[of ctx] h have A: "chainsOk ctx ?A"
      and Ai: "\<forall>x \<in> set ?A. Suc d \<le> listIndentOf (fst x)" by simp_all
    let ?ctx' = "rev (map fst ?A) @ ctx"
    from Ai have Ad: "\<forall>x \<in> set (rev (map fst ?A)). d \<le> listIndentOf x"
      and As: "\<forall>x \<in> set (rev (map fst ?A)). Suc d \<le> listIndentOf x" by auto
    have h1: "proj (fst own) # ctxChain ?ctx' d = snd own"
      using h ctxChain_skip[OF Ad, of ctx] by simp
    have h2: "ctxChain ?ctx' (Suc d) = snd own"
      using h ctxChain_skip[OF As, of ctx] by simp
    from 6(2)[of ?ctx'] h h1 h2
    have C: "chainsOk ?ctx' (encContents uid d own cs (c + countItems its))"
      and Ci: "\<forall>x \<in> set (encContents uid d own cs (c + countItems its)). d \<le> listIndentOf (fst x)"
      by simp_all
    from A Ai C Ci
    show "chainsOk ctx (encContents uid d own (Nested k its # cs) c) \<and>
          (\<forall>x \<in> set (encContents uid d own (Nested k its # cs) c). d \<le> listIndentOf (fst x))"
      by (auto simp: chainsOk_append)
  qed
qed

lemma enc_snd:
  "map snd (encItems uid k d (map (lab uid) anc) its c) =
     map (map (lab uid)) (chainsItems k anc its c)"
  "map snd (encItem uid k d (map (lab uid) anc) it c) =
     map (map (lab uid)) (chainsItem k anc it c)"
  "snd own = map (lab uid) ch \<Longrightarrow>
     map snd (encContents uid d own cs c) = map (map (lab uid)) (chainsContents ch cs c)"
  by (induction k anc its c and k anc it c and ch cs c arbitrary: d and d and d own
      rule: chainsItems_chainsItem_chainsContents.induct)
     (simp_all add: Let_def lab_def)

lemma itemNumbers_bounds:
  "set (itemNumbers its c) \<subseteq> {c ..< c + countItems its} \<and> distinct (itemNumbers its c)"
  "set (itemNumber it c) \<subseteq> {c ..< c + countItem it} \<and> distinct (itemNumber it c)"
  "set (contentNumbers cs c) \<subseteq> {c ..< c + countContents cs} \<and> distinct (contentNumbers cs c)"
proof (induction its c and it c and cs c rule: itemNumbers_itemNumber_contentNumbers.induct)
  case (2 it its c)
  then show ?case by (fastforce simp: disjoint_iff)
next
  case (3 cs c)
  then show ?case by fastforce
next
  case (6 k its cs c)
  then show ?case by (fastforce simp: disjoint_iff)
qed simp_all

lemma itemNumbers_length:
  "length (itemNumbers its c) = countItems its"
  "length (itemNumber it c) = countItem it"
  "length (contentNumbers cs c) = countContents cs"
  by (induction its c and it c and cs c rule: itemNumbers_itemNumber_contentNumbers.induct)
     simp_all

lemma takeWhile_all:
  "\<forall>e \<in> set xs. P e \<Longrightarrow> \<not> P y \<Longrightarrow> takeWhile P (xs @ [y]) = xs"
  by (induction xs) simp_all

lemma wellFormed_itemBlock:
  "length ch = d \<Longrightarrow> wellFormed (itemBlock i d t, p # ch)"
  by (simp add: wellFormed_def itemBlock_def isListItemBlock_def hasAttribute_def
        getAttribute_def listIndentOf_def)

lemma enc_wellFormed:
  "length anc = d \<Longrightarrow> (\<forall>x \<in> set (encItems uid k d anc its c). wellFormed x)"
  "length anc = d \<Longrightarrow> (\<forall>x \<in> set (encItem uid k d anc it c). wellFormed x)"
  "wellFormed own \<Longrightarrow> length (snd own) = Suc d \<Longrightarrow>
     (\<forall>x \<in> set (encContents uid d own cs c). wellFormed x)"
  by (induction uid k d anc its c and uid k d anc it c and uid d own cs c
      rule: encItems_encItem_encContents.induct)
     (auto simp: Let_def wellFormed_itemBlock)

lemma upcastList_enc:
  assumes "\<And>n. chk n ''listItemId''"
  shows "upcastList chk uid k its = map fst (encItems uid k 0 [] its 0)"
  using convert_enc(1)[of chk uid k "[]" its
          "\<lparr>uidCounter = 0, modelNodes = [], keptEmptyElements = []\<rparr>" "[]"] assms
  by (simp add: upcastList_def liDepth_def)

lemma wrapperPair_names:
  "map (\<lambda>e. (vname e, vid e)) (wrapperPair doc [] lc) =
     [(''li'', fst (proj (doc ! snd lc))),
      (if snd (proj (doc ! snd lc)) = Some (VStr ''numbered'') then ''ol'' else ''ul'',
       snd (proj (doc ! snd lc)))]"
  by (simp add: wrapperPair_def strategyAttributes_def createListItemElement_def
        createListElement_def proj_def)

lemma wrappers_names:
  "map proj (map (\<lambda>p. doc ! snd p) G) = map (lab uid) ch \<Longrightarrow>
   map (\<lambda>e. (vname e, vid e)) (concat (map (wrapperPair doc []) G)) = markupWrappers uid ch"
proof (induction G arbitrary: ch)
  case Nil
  then show ?case by (simp add: markupWrappers_def)
next
  case (Cons g G)
  then obtain c ch' where ch: "ch = c # ch'" by (cases ch) auto
  obtain n k where c: "c = (n, k)" by (cases c)
  from Cons.prems have hd: "proj (doc ! snd g) = lab uid c"
    and tl: "map proj (map (\<lambda>p. doc ! snd p) G) = map (lab uid) ch'"
    by (simp_all add: ch)
  have "map (\<lambda>e. (vname e, vid e)) (wrapperPair doc [] g) =
        [(''li'', Some (VStr (uid n))), (listNameOf k, Some (listTypeOf k))]"
    unfolding wrapperPair_names hd
    by (cases k) (simp_all add: lab_def c listNameOf_def listTypeOf_def)
  with Cons.IH[OF tl] show ?case by (simp add: ch c markupWrappers_def)
qed

lemma wrappers_attribute:
  "\<forall>e \<in> set (concat (map (wrapperPair doc []) G)). vkind e = AttributeElement"
  by (induction G)
     (simp_all add: wrapperPair_def strategyAttributes_def createListItemElement_def
        createListElement_def)

lemma downcastBlock_fresh:
  "downcastBlock doc i =
     Some (viewOfRange (wrapListItemBlock doc i (createRangeOn plainView) []))"
proof -
  have c: "fst (createAttributesConsumer listAttributeNames doc i allConsumable)"
    by (simp add: consumer_fails_iff allConsumable_def)
  have r: "removeCustomMarkerElements plainView = Some plainView"
    by (simp add: removeCustomMarkerElements_def plainView_def editableRoot_def)
  have u: "unwrapListItemBlock plainView = Some plainView"
    by (simp add: unwrapListItemBlock_def plainView_def editableRoot_def)
  have m: "insertCustomMarkerElements doc i plainView [] True = createRangeOn plainView"
    by (simp add: insertCustomMarkerElements_def)
  obtain c' where "createAttributesConsumer listAttributeNames doc i allConsumable = (True, c')"
    using c by (cases "createAttributesConsumer listAttributeNames doc i allConsumable") auto
  then show ?thesis
    by (simp add: downcastBlock_def listItemDowncastConverter_def listAttributeNames_def
          plainViews_def r u m Let_def)
qed

lemma roundtrip_block:
  assumes chk: "\<And>n. chk n ''listItemId''"
    and i: "i < length (upcastList chk uid k its)"
  shows "length (upcastList chk uid k its) = length (markupChains k its) \<and>
         Suc (listIndentOf (upcastList chk uid k its ! i)) = length (markupChains k its ! i) \<and>
         map_option listWrappers (downcastBlock (upcastList chk uid k its) i) =
           Some (markupWrappers uid (markupChains k its ! i))"
proof -
  let ?L = "encItems uid k 0 [] its 0"
  let ?doc = "upcastList chk uid k its"
  let ?G = "governingBlocks ?doc (listIndentOf (?doc ! i)) i"
  have doc: "?doc = map fst ?L" using chk by (rule upcastList_enc)
  have chains: "map (map (lab uid)) (markupChains k its) = map snd ?L"
    using enc_snd(1)[of uid k 0 "[]" its 0] by (simp add: markupChains_def)
  have len: "length ?doc = length (markupChains k its)"
    using arg_cong[OF chains, of length] by (simp add: doc)
  from i have iL: "i < length ?L" by (simp add: doc)
  then have mem: "?L ! i \<in> set ?L" by simp
  have fsti: "?doc ! i = fst (?L ! i)" using iL by (simp add: doc)
  have sndi: "map (lab uid) (markupChains k its ! i) = snd (?L ! i)"
    using arg_cong[OF chains, of "\<lambda>xs. xs ! i"] iL len i by simp
  have wf: "\<forall>x \<in> set ?L. wellFormed x"
    by (rule enc_wellFormed(1)) simp
  have depth: "Suc (listIndentOf (?doc ! i)) = length (markupChains k its ! i)"
    using wf mem arg_cong[OF sndi, of length] by (simp add: fsti wellFormed_def)
  have all: "\<forall>n \<in> set ?doc. isListItemBlock n"
    using wf by (auto simp: doc wellFormed_def)
  have ind: "hasAttribute (?doc ! i) ''listIndent''"
    using wf mem by (simp add: fsti wellFormed_def)
  have ok: "chainsOk [] ?L"
    using enc_chains(1)[of "[]" 0 "[]" uid k its 0] by (simp add: ctxChain_0)
  have "map proj (map (\<lambda>p. ?doc ! snd p) ?G) =
        map proj (chainRev (rev (take i ?doc)) (?doc ! i) (listIndentOf (?doc ! i)))"
    using governing_chainRev[OF all i] by simp
  also have "\<dots> = snd (?L ! i)"
    using chainsOk_nth[OF ok iL] by (simp add: doc fsti[unfolded doc])
  finally have gov: "map proj (map (\<lambda>p. ?doc ! snd p) ?G) =
      map (lab uid) (markupChains k its ! i)"
    by (simp add: sndi)
  have par: "parents (viewOfRange (wrapListItemBlock ?doc i (createRangeOn plainView) [])) =
        concat (map (wrapperPair ?doc []) ?G) @ [editableRoot]"
    using ind
    by (simp add: wrapListItemBlock_def wrapLevels_parents wrapLevels_rest createRangeOn_def
          viewOfRange_def plainView_def)
  have attr: "\<forall>e \<in> set (concat (map (wrapperPair ?doc []) ?G)). vkind e = AttributeElement"
    by (rule wrappers_attribute)
  have root: "\<not> vkind editableRoot = AttributeElement"
    by (simp add: editableRoot_def)
  have "listWrappers (viewOfRange (wrapListItemBlock ?doc i (createRangeOn plainView) [])) =
        map (\<lambda>e. (vname e, vid e)) (concat (map (wrapperPair ?doc []) ?G))"
    using takeWhile_all[OF attr root] by (simp only: listWrappers_def par)
  also have "\<dots> = markupWrappers uid (markupChains k its ! i)"
    using gov by (rule wrappers_names)
  finally have "map_option listWrappers (downcastBlock ?doc i) =
      Some (markupWrappers uid (markupChains k its ! i))"
    by (simp add: downcastBlock_fresh)
  with len depth show ?thesis by blast
qed

text \<open>
  C6. Let every converted block be allowed to carry \<^verbatim>\<open>listItemId\<close>. For every nested list markup,
  upcasting it and then downcasting each block of the result to the data view gives one block
  for each block of the markup, in the same order, and around each block the nested structure
  it had in the markup: the indent of the block is its nesting depth, and its wrappers are,
  level by level from the innermost, the \<^verbatim>\<open>li\<close> of the item that contains it at that level
  and the list of that item, \<^verbatim>\<open>ol\<close> where the markup had \<^verbatim>\<open>ol\<close> and \<^verbatim>\<open>ul\<close> where it had \<^verbatim>\<open>ul\<close>,
  with the list type to match. The \<^verbatim>\<open>li\<close> of an item carries the id of that item, the same for
  all blocks of the item, and the items have different numbers, hence different ids as long as
  the id generator does not repeat itself: the blocks are grouped into items as in the markup.
\<close>

theorem upcast_downcast_roundtrip:
  assumes "\<And>n. chk n ''listItemId''"
  shows "length (upcastList chk uid k its) = length (markupChains k its) \<and>
         distinct (itemNumbers its 0) \<and>
         (\<forall>i < length (upcastList chk uid k its).
            Suc (listIndentOf (upcastList chk uid k its ! i)) = length (markupChains k its ! i) \<and>
            map_option listWrappers (downcastBlock (upcastList chk uid k its) i) =
              Some (markupWrappers uid (markupChains k its ! i)))"
proof (intro conjI allI impI)
  show "distinct (itemNumbers its 0)" by (simp add: itemNumbers_bounds)
next
  have "map snd (encItems uid k 0 [] its 0) = map (map (lab uid)) (markupChains k its)"
    using enc_snd(1)[of uid k 0 "[]" its 0] by (simp add: markupChains_def)
  then have "length (map snd (encItems uid k 0 [] its 0)) =
             length (map (map (lab uid)) (markupChains k its))"
    by (rule arg_cong)
  then show "length (upcastList chk uid k its) = length (markupChains k its)"
    using upcastList_enc[of chk uid k its] assms by simp
next
  fix i assume "i < length (upcastList chk uid k its)"
  with assms roundtrip_block[of chk i uid k its]
  show "Suc (listIndentOf (upcastList chk uid k its ! i)) = length (markupChains k its ! i)"
    by blast
next
  fix i assume "i < length (upcastList chk uid k its)"
  with assms roundtrip_block[of chk i uid k its]
  show "map_option listWrappers (downcastBlock (upcastList chk uid k its) i) =
          Some (markupWrappers uid (markupChains k its ! i))"
    by blast
qed

theorem upcast_downcast_roundtrip_witness:
  "upcastList (\<lambda>n k. True) exampleUid Ol exampleMarkup =
     [listBlock ''e'' 0 ''numbered'', listBlock ''e11'' 0 ''numbered'',
      listBlock ''e1'' 1 ''bulleted'', listBlock ''e11'' 0 ''numbered''] \<and>
   markupChains Ol exampleMarkup = [[(0, Ol)], [(2, Ol)], [(1, Ul), (2, Ol)], [(2, Ol)]] \<and>
   itemNumbers exampleMarkup 0 = [0, 2, 1] \<and>
   map (\<lambda>i. map_option listWrappers
               (downcastBlock (upcastList (\<lambda>n k. True) exampleUid Ol exampleMarkup) i))
     [0, 1, 2, 3] =
     [Some [(''li'', Some (VStr ''e'')), (''ol'', Some (VStr ''numbered''))],
      Some [(''li'', Some (VStr ''e11'')), (''ol'', Some (VStr ''numbered''))],
      Some [(''li'', Some (VStr ''e1'')), (''ul'', Some (VStr ''bulleted'')),
            (''li'', Some (VStr ''e11'')), (''ol'', Some (VStr ''numbered''))],
      Some [(''li'', Some (VStr ''e11'')), (''ol'', Some (VStr ''numbered''))]]"
proof -
  let ?doc = "upcastList (\<lambda>n k. True) exampleUid Ol exampleMarkup"
  have doc: "?doc = [listBlock ''e'' 0 ''numbered'', listBlock ''e11'' 0 ''numbered'',
      listBlock ''e1'' 1 ''bulleted'', listBlock ''e11'' 0 ''numbered'']"
    by code_simp
  have chains: "markupChains Ol exampleMarkup = [[(0, Ol)], [(2, Ol)], [(1, Ul), (2, Ol)], [(2, Ol)]]"
    by code_simp
  have numbers: "itemNumbers exampleMarkup 0 = [0, 2, 1]"
    by code_simp
  have len: "length ?doc = 4" by (simp only: doc) simp
  have "\<forall>i < length ?doc. map_option listWrappers (downcastBlock ?doc i) =
          Some (markupWrappers exampleUid (markupChains Ol exampleMarkup ! i))"
    using upcast_downcast_roundtrip[of "\<lambda>n k. True" exampleUid Ol exampleMarkup] by simp
  then have each: "\<And>i. i < 4 \<Longrightarrow> map_option listWrappers (downcastBlock ?doc i) =
          Some (markupWrappers exampleUid (markupChains Ol exampleMarkup ! i))"
    by (simp only: len)
  have v0: "map_option listWrappers (downcastBlock ?doc 0) =
      Some [(''li'', Some (VStr ''e'')), (''ol'', Some (VStr ''numbered''))]"
    using each[of 0]
    by (simp add: chains markupWrappers_def exampleUid_def listNameOf_def listTypeOf_def
          del: map_option_eq_Some)
  have v1: "map_option listWrappers (downcastBlock ?doc 1) =
      Some [(''li'', Some (VStr ''e11'')), (''ol'', Some (VStr ''numbered''))]"
    using each[of 1]
    by (simp add: chains markupWrappers_def exampleUid_def listNameOf_def listTypeOf_def
          numeral_2_eq_2 del: map_option_eq_Some)
  have v2: "map_option listWrappers (downcastBlock ?doc 2) =
      Some [(''li'', Some (VStr ''e1'')), (''ul'', Some (VStr ''bulleted'')),
            (''li'', Some (VStr ''e11'')), (''ol'', Some (VStr ''numbered''))]"
    using each[of 2]
    by (simp add: chains markupWrappers_def exampleUid_def listNameOf_def listTypeOf_def
          numeral_2_eq_2 del: map_option_eq_Some)
  have v3: "map_option listWrappers (downcastBlock ?doc 3) =
      Some [(''li'', Some (VStr ''e11'')), (''ol'', Some (VStr ''numbered''))]"
    using each[of 3]
    by (simp add: chains markupWrappers_def exampleUid_def listNameOf_def listTypeOf_def
          numeral_2_eq_2 numeral_3_eq_3 del: map_option_eq_Some)
  have views: "map (\<lambda>i. map_option listWrappers (downcastBlock ?doc i)) [0, 1, 2, 3] =
     [Some [(''li'', Some (VStr ''e'')), (''ol'', Some (VStr ''numbered''))],
      Some [(''li'', Some (VStr ''e11'')), (''ol'', Some (VStr ''numbered''))],
      Some [(''li'', Some (VStr ''e1'')), (''ul'', Some (VStr ''bulleted'')),
            (''li'', Some (VStr ''e11'')), (''ol'', Some (VStr ''numbered''))],
      Some [(''li'', Some (VStr ''e11'')), (''ol'', Some (VStr ''numbered''))]]"
    by (simp only: list.map v0 v1 v2 v3)
  from doc chains numbers views show ?thesis by (intro conjI)
qed

end
